theory Spec2Isabelle
  imports Main "HOL-Library.Word"
begin

unbundle bit_operations_syntax

section \<open>EIA-608 caption decoder (eia608.go) and CEA-708 envelope (cea708.go)\<close>

text \<open>
  Go's \<^verbatim>\<open>uint\<close> and \<^verbatim>\<open>int\<close> are taken at their 64-bit width (amd64, arm64):
  both are \<open>64 word\<close>, read with \<open>unat\<close> or \<open>sint\<close>; \<^verbatim>\<open>uint16\<close> is \<open>16 word\<close>,
  \<^verbatim>\<open>byte\<close> is \<open>8 word\<close>, \<^verbatim>\<open>rune\<close> is \<open>32 word\<close>. A run-time panic of the Go
  program is the left summand of the result type.
\<close>

datatype abort = IndexOutOfRange | NilDereference

type_synonym 'a result = "abort + 'a"

subsection \<open>Parity table\<close>

text \<open>\<^verbatim>\<open>bx := func(b, x int) byte { return byte(b << x & 0x80) }\<close>\<close>

definition bx :: "64 word \<Rightarrow> nat \<Rightarrow> 8 word" where
  "bx b x = ucast (push_bit x b AND 0x80)"

definition parityEntry :: "64 word \<Rightarrow> 8 word" where
  "parityEntry i =
     ucast (i AND 0x7F) OR
     (0x80 XOR bx i 1 XOR bx i 2 XOR bx i 3 XOR bx i 4 XOR bx i 5 XOR bx i 6 XOR bx i 7)"

definition parityTable :: "8 word list" where
  "parityTable = map (\<lambda>i. parityEntry (of_nat i)) [0..<128]"

definition parityByte :: "8 word \<Rightarrow> 8 word" where
  "parityByte ccData = parityTable ! unat (0x7F AND ccData)"

definition parityWord :: "16 word \<Rightarrow> 16 word" where
  "parityWord ccData =
     (let a = parityTable ! unat (0x7F AND (ucast (drop_bit 8 ccData) :: 8 word));
          b = parityTable ! unat (0x7F AND (ucast ccData :: 8 word))
      in push_bit 8 (ucast a) OR ucast b)"

text \<open>Number of set bits among the 8 bits of a byte.\<close>

definition popcount :: "8 word \<Rightarrow> nat" where
  "popcount b = sum_list (map (\<lambda>k. of_bool (bit b k)) [0..<8])"


subsection \<open>Data model\<close>

abbreviation (input) Rows :: "64 word" where "Rows \<equiv> 15"
abbreviation (input) Cols :: "64 word" where "Cols \<equiv> 32"

datatype Mode608 = Mode608_Unknown | Mode608_PopOn | Mode608_PaintOn

text \<open>\<^verbatim>\<open>Content\<close> is a Go string: its bytes (UTF-8).\<close>

record EIA608State =
  Mode :: Mode608
  Rollup :: "64 word"
  Row :: "64 word"
  Col :: "64 word"
  Content :: "8 word list"

record frameBufferChar =
  cell_underline :: bool
  cell_style :: "8 word"
  cell_char :: "32 word"

type_synonym frameBufferRow = "frameBufferChar list"

record frameBuffer =
  state :: EIA608State
  data :: "frameBufferRow list"

text \<open>
  \<^verbatim>\<open>active *frameBuffer\<close> is \<^verbatim>\<open>nil\<close>, \<^verbatim>\<open>&f.front\<close> or \<^verbatim>\<open>&f.back\<close>: a selector.
  The swap \<^verbatim>\<open>f.front, f.back = f.back, f.front\<close> copies the two struct values and leaves
  the pointer where it is.
\<close>

datatype sel = Front | Back

record EIA608Frame =
  underline :: bool
  style :: "8 word"
  row :: "64 word"
  col :: "64 word"
  ccData :: "16 word"
  front :: frameBuffer
  "back" :: frameBuffer
  active :: "sel option"

datatype goerror = ErrorString string

definition bindR :: "'a result \<Rightarrow> ('a \<Rightarrow> 'b result) \<Rightarrow> 'b result" where
  "bindR m k = (case m of Inl e \<Rightarrow> Inl e | Inr v \<Rightarrow> k v)"

text \<open>Zero values of the Go types.\<close>

definition emptyChar :: frameBufferChar where
  "emptyChar = \<lparr>cell_underline = False, cell_style = 0, cell_char = 0\<rparr>"

definition emptyRow :: frameBufferRow where
  "emptyRow = replicate 32 emptyChar"

definition emptyData :: "frameBufferRow list" where
  "emptyData = replicate 15 emptyRow"

definition zeroState :: EIA608State where
  "zeroState = \<lparr>Mode = Mode608_Unknown, Rollup = 0, Row = 0, Col = 0, Content = []\<rparr>"

definition zeroBuffer :: frameBuffer where
  "zeroBuffer = \<lparr>state = zeroState, data = emptyData\<rparr>"

text \<open>\<^verbatim>\<open>EIA608Frame{}\<close>, the fresh decoder.\<close>

definition newFrame :: EIA608Frame where
  "newFrame = \<lparr>underline = False, style = 0, row = 0, col = 0, ccData = 0,
                front = zeroBuffer, back = zeroBuffer, active = None\<rparr>"

fun buf :: "EIA608Frame \<Rightarrow> sel \<Rightarrow> frameBuffer" where
  "buf f Front = front f"
| "buf f Back = back f"

fun setBuf :: "EIA608Frame \<Rightarrow> sel \<Rightarrow> frameBuffer \<Rightarrow> EIA608Frame" where
  "setBuf f Front b = f\<lparr>front := b\<rparr>"
| "setBuf f Back b = f\<lparr>back := b\<rparr>"

subsection \<open>Tables\<close>

definition charMap :: "32 word list" where
  "charMap = [
    0x20, 0x21, 0x22, 0x23, 0x24, 0x25, 0x26, 0x2019, 0x28, 0x29, 0xE1, 0x2B, 0x2C, 0x2D, 0x2E, 0x2F, 0x30, 0x31, 0x32, 0x33, 0x34, 0x35, 0x36, 0x37, 0x38, 0x39, 0x3A, 0x3B, 0x3C, 0x3D, 0x3E, 0x3F, 0x40,
    0x41, 0x42, 0x43, 0x44, 0x45, 0x46, 0x47, 0x48, 0x49, 0x4A, 0x4B, 0x4C, 0x4D, 0x4E, 0x4F, 0x50, 0x51, 0x52, 0x53, 0x54, 0x55, 0x56, 0x57, 0x58, 0x59, 0x5A, 0x5B, 0xE9, 0x5D, 0xED, 0xF3, 0xFA,
    0x61, 0x62, 0x63, 0x64, 0x65, 0x66, 0x67, 0x68, 0x69, 0x6A, 0x6B, 0x6C, 0x6D, 0x6E, 0x6F, 0x70, 0x71, 0x72, 0x73, 0x74, 0x75, 0x76, 0x77, 0x78, 0x79, 0x7A, 0xE7, 0xF7, 0xD1, 0xF1, 0x2588,
    0xAE, 0xB0, 0xBD, 0xBF, 0x2122, 0xA2, 0xA3, 0x266A, 0xE0, 0x20, 0xE8, 0xE2, 0xEA, 0xEE, 0xF4, 0xFB,
    0xC1, 0xC9, 0xD3, 0xDA, 0xDC, 0xFC, 0x2018, 0xA1, 0x2A, 0x27, 0x2014, 0xA9, 0x2120, 0x2022, 0x201C, 0x201D,
    0xC0, 0xC2, 0xC7, 0xC8, 0xCA, 0xCB, 0xEB, 0xCE, 0xCF, 0xEF, 0xD4, 0xD9, 0xF9, 0xDB, 0xAB, 0xBB,
    0xC3, 0xE3, 0xCD, 0xCC, 0xEC, 0xD2, 0xF2, 0xD5, 0xF5, 0x7B, 0x7D, 0x5C, 0x5E, 0x5F, 0x7C, 0x7E,
    0xC4, 0xE4, 0xD6, 0xF6, 0xDF, 0xA5, 0xA4, 0xA6, 0xC5, 0xE5, 0xD8, 0xF8, 0x250C, 0x2510, 0x2514, 0x2518]"

definition rowMap :: "64 word list" where
  "rowMap = [4, Rows, 14, 13, 12, 11, 3, 2, 1, 0, 10, 9, 8, 7, 6, 5]"

subsection \<open>Frame buffer\<close>

definition clear :: "frameBuffer \<Rightarrow> frameBuffer" where
  "clear b = b\<lparr>data := emptyData\<rparr>"

definition clearState :: "frameBuffer \<Rightarrow> frameBuffer" where
  "clearState b = (let b1 = clear b in b1\<lparr>state := (state b1)\<lparr>Row := 0, Col := 0\<rparr>\<rparr>)"

text \<open>\<^verbatim>\<open>getChar\<close> returns a pointer to the cell, or \<^verbatim>\<open>nil\<close> out of range: here the cell read.\<close>

definition getChar :: "frameBuffer \<Rightarrow> 64 word \<Rightarrow> 64 word \<Rightarrow> frameBufferChar option" where
  "getChar b r c = (if r \<ge> Rows \<or> c \<ge> Cols then None else Some (data b ! unat r ! unat c))"

definition setChar :: "frameBuffer \<Rightarrow> 64 word \<Rightarrow> 64 word \<Rightarrow> frameBufferChar \<Rightarrow> frameBuffer \<times> bool" where
  "setChar b r c ch =
     (case getChar b r c of
        None \<Rightarrow> (b, False)
      | Some val \<Rightarrow>
          if val \<noteq> ch
          then (b\<lparr>data := (data b)[unat r := (data b ! unat r)[unat c := ch]]\<rparr>, True)
          else (b, False))"

text \<open>
  The loop of \<^verbatim>\<open>carriageReturn\<close>: \<^verbatim>\<open>for i := uint(0); i < n; i++\<close>, with both array
  indices bounds-checked as Go does.
\<close>

function crLoop :: "64 word \<Rightarrow> 64 word \<Rightarrow> 64 word \<Rightarrow> frameBufferRow list \<Rightarrow> frameBufferRow list result" where
  "crLoop rw n i d =
     (if i < n
      then (let idx = rw + n - i
            in if idx < Rows \<and> idx - 1 < Rows
               then crLoop rw n (i + 1) (d[unat idx := d ! unat (idx - 1)])
               else Inl IndexOutOfRange)
      else Inr d)"
  by pat_completeness auto
termination
proof (relation "measure (\<lambda>(rw, n, i, d). unat n - unat i)")
  show "wf (measure (\<lambda>(rw, n, i, d). unat n - unat i))" by simp
next
  fix rw n i :: "64 word" and d :: "frameBufferRow list" and x
  assume lt: "i < n"
  then have lt': "unat i < unat n" by (simp add: word_less_nat_alt)
  have "unat n < 2 ^ LENGTH(64)" by (rule unsigned_less)
  with lt' have "unat i + unat (1 :: 64 word) < 2 ^ LENGTH(64)" by simp
  then have "unat (i + 1) = unat i + unat (1 :: 64 word)" by (simp only: unat_add_lem)
  then have "unat (i + 1) = Suc (unat i)" by simp
  with lt' show "((rw, n, i + 1, d[unat x := d ! unat (x - 1)]), (rw, n, i, d))
        \<in> measure (\<lambda>(rw, n, i, d). unat n - unat i)"
    by simp
qed

declare crLoop.simps [simp del]

definition carriageReturn :: "frameBuffer \<Rightarrow> 64 word \<Rightarrow> frameBuffer result" where
  "carriageReturn b rw =
     (let rollups = Rollup (state b)
      in if rw + rollups \<ge> Rows + 1 \<or> rw + rollups \<le> 0 then Inr b
         else (let n = rollups - 1
               in bindR (crLoop rw n 0 (data b)) (\<lambda>d.
                    if rw < Rows then Inr (b\<lparr>data := d[unat rw := emptyRow]\<rparr>)
                    else Inl IndexOutOfRange)))"


text \<open>
  Go's \<^verbatim>\<open>strings.Builder.WriteRune\<close> appends the UTF-8 encoding of the rune
  (\<^verbatim>\<open>utf8.AppendRune\<close> of the standard library): surrogates and values beyond U+10FFFF
  are written as U+FFFD.
\<close>

definition encodeRune :: "32 word \<Rightarrow> 8 word list" where
  "encodeRune r =
     (if r \<le> 0x7F then [ucast r]
      else if r \<le> 0x7FF then [0xC0 OR ucast (drop_bit 6 r), 0x80 OR (ucast r AND 0x3F)]
      else if r < 0xD800 \<or> (0xDFFF < r \<and> r \<le> 0xFFFF)
        then [0xE0 OR ucast (drop_bit 12 r), 0x80 OR (ucast (drop_bit 6 r) AND 0x3F),
              0x80 OR (ucast r AND 0x3F)]
      else if r > 0xFFFF \<and> r \<le> 0x10FFFF
        then [0xF0 OR ucast (drop_bit 18 r), 0x80 OR (ucast (drop_bit 12 r) AND 0x3F),
              0x80 OR (ucast (drop_bit 6 r) AND 0x3F), 0x80 OR (ucast r AND 0x3F)]
      else [0xEF, 0xBF, 0xBD])"

definition rowString :: "frameBufferRow \<Rightarrow> 8 word list" where
  "rowString rw = concat (map (\<lambda>c. if cell_char c = 0 then [] else encodeRune (cell_char c)) rw)"

fun joinLines :: "8 word list list \<Rightarrow> 8 word list" where
  "joinLines [] = []"
| "joinLines [x] = x"
| "joinLines (x # y # ys) = x @ [0x0A] @ joinLines (y # ys)"

text \<open>\<^verbatim>\<open>frameBuffer.String\<close>: the non-empty rows, reversed (bottom row first in storage), joined.\<close>

definition String :: "frameBuffer \<Rightarrow> 8 word list" where
  "String b = joinLines (rev (filter (\<lambda>l. length l > 0) (map rowString (data b))))"

subsection \<open>Classification of a unit\<close>

definition isControl :: "16 word \<Rightarrow> bool" where
  "isControl u \<longleftrightarrow> 0x1420 = (0x7670 AND u) \<or> 0x1720 = (0x7770 AND u)"

definition isPreamble :: "16 word \<Rightarrow> bool" where
  "isPreamble u \<longleftrightarrow> 0x1040 = (0x7040 AND u)"

definition isMidRowChange :: "16 word \<Rightarrow> bool" where
  "isMidRowChange u \<longleftrightarrow> 0x1120 = (0x7770 AND u)"

definition isBasicNA :: "16 word \<Rightarrow> bool" where
  "isBasicNA u \<longleftrightarrow> 0x0000 \<noteq> (0x6000 AND u)"

definition isSpecialNA :: "16 word \<Rightarrow> bool" where
  "isSpecialNA u \<longleftrightarrow> 0x1130 = (0x7770 AND u)"

definition isWesternEu :: "16 word \<Rightarrow> bool" where
  "isWesternEu u \<longleftrightarrow> 0x1220 = (0x7660 AND u)"

subsection \<open>Control commands\<close>

abbreviation (input) eia608_control_resume_caption_loading :: "16 word" where
  "eia608_control_resume_caption_loading \<equiv> 0x1420"
abbreviation (input) eia608_control_backspace :: "16 word" where
  "eia608_control_backspace \<equiv> 0x1421"
abbreviation (input) eia608_control_delete_to_end_of_row :: "16 word" where
  "eia608_control_delete_to_end_of_row \<equiv> 0x1424"
abbreviation (input) eia608_control_roll_up_2 :: "16 word" where
  "eia608_control_roll_up_2 \<equiv> 0x1425"
abbreviation (input) eia608_control_roll_up_3 :: "16 word" where
  "eia608_control_roll_up_3 \<equiv> 0x1426"
abbreviation (input) eia608_control_roll_up_4 :: "16 word" where
  "eia608_control_roll_up_4 \<equiv> 0x1427"
abbreviation (input) eia608_control_resume_direct_captioning :: "16 word" where
  "eia608_control_resume_direct_captioning \<equiv> 0x1429"
abbreviation (input) eia608_control_erase_display_memory :: "16 word" where
  "eia608_control_erase_display_memory \<equiv> 0x142C"
abbreviation (input) eia608_control_carriage_return :: "16 word" where
  "eia608_control_carriage_return \<equiv> 0x142D"
abbreviation (input) eia608_control_erase_non_displayed_memory :: "16 word" where
  "eia608_control_erase_non_displayed_memory \<equiv> 0x142E"
abbreviation (input) eia608_control_end_of_caption :: "16 word" where
  "eia608_control_end_of_caption \<equiv> 0x142F"
abbreviation (input) eia608_tab_offset_1 :: "16 word" where
  "eia608_tab_offset_1 \<equiv> 0x1721"
abbreviation (input) eia608_tab_offset_2 :: "16 word" where
  "eia608_tab_offset_2 \<equiv> 0x1722"
abbreviation (input) eia608_tab_offset_3 :: "16 word" where
  "eia608_tab_offset_3 \<equiv> 0x1723"

text \<open>
  A method call through \<^verbatim>\<open>f.active\<close>. \<^verbatim>\<open>setChar\<close> on a nil receiver returns false
  when the position is out of range (\<^verbatim>\<open>getChar\<close> returns before it touches the receiver)
  and panics otherwise.
\<close>

definition setCharActive ::
  "EIA608Frame \<Rightarrow> 64 word \<Rightarrow> 64 word \<Rightarrow> frameBufferChar \<Rightarrow> (EIA608Frame \<times> bool) result" where
  "setCharActive f r c ch =
     (case active f of
        None \<Rightarrow> if r \<ge> Rows \<or> c \<ge> Cols then Inr (f, False) else Inl NilDereference
      | Some s \<Rightarrow> (let (b, changed) = setChar (buf f s) r c ch in Inr (setBuf f s b, changed)))"

text \<open>A write to a field of \<^verbatim>\<open>f.active.state\<close>.\<close>

definition updActiveState :: "EIA608Frame \<Rightarrow> (EIA608State \<Rightarrow> EIA608State) \<Rightarrow> EIA608Frame result" where
  "updActiveState f g =
     (case active f of
        None \<Rightarrow> Inl NilDereference
      | Some s \<Rightarrow> Inr (setBuf f s ((buf f s)\<lparr>state := g (state (buf f s))\<rparr>)))"

definition backspace :: "EIA608Frame \<Rightarrow> EIA608Frame result" where
  "backspace f =
     (let f1 = (if col f > 0 then f\<lparr>col := col f - 1\<rparr> else f)
      in bindR (setCharActive f1 (row f1) (col f1) emptyChar) (\<lambda>(f2, _). Inr f2))"

text \<open>The loop of delete-to-end-of-row: \<^verbatim>\<open>for i := f.col; i < Cols; i++\<close>.\<close>

function deleteLoop :: "EIA608Frame \<Rightarrow> 64 word \<Rightarrow> EIA608Frame result" where
  "deleteLoop f i =
     (if i < Cols
      then bindR (setCharActive f (row f) i emptyChar) (\<lambda>(f1, _). deleteLoop f1 (i + 1))
      else Inr f)"
  by pat_completeness auto
termination
proof (relation "measure (\<lambda>(f, i). 32 - unat i)")
  show "wf (measure (\<lambda>(f, i). 32 - unat i))" by simp
next
  fix f :: EIA608Frame and i :: "64 word" and x :: "EIA608Frame \<times> bool" and xa y
  assume lt: "i < Cols"
  then have lt': "unat i < 32" by (simp add: word_less_nat_alt)
  then have "unat i + unat (1 :: 64 word) < 2 ^ LENGTH(64)" by simp
  then have "unat (i + 1) = unat i + unat (1 :: 64 word)" by (simp only: unat_add_lem)
  then have "unat (i + 1) = Suc (unat i)" by simp
  with lt' show "((xa, i + 1), (f, i)) \<in> measure (\<lambda>(f, i). 32 - unat i)"
    by simp
qed

declare deleteLoop.simps [simp del]

definition ctlCmd :: "16 word \<Rightarrow> 16 word" where
  "ctlCmd u = (if 0 = (0x0200 AND u) then 0x167F AND u else 0x177F AND u)"

definition selectFront :: "EIA608Frame \<Rightarrow> 64 word \<Rightarrow> EIA608Frame result" where
  "selectFront f n = updActiveState (f\<lparr>active := Some Front\<rparr>) (\<lambda>st. st\<lparr>Rollup := n\<rparr>)"

definition tabOffset :: "EIA608Frame \<Rightarrow> 64 word \<Rightarrow> (EIA608Frame \<times> bool) result" where
  "tabOffset f n =
     (if active f = None then Inr (f, False)
      else bindR (updActiveState (f\<lparr>col := col f + n\<rparr>) (\<lambda>st. st\<lparr>Col := Col st + n\<rparr>))
             (\<lambda>f1. Inr (f1, False)))"

definition parseControl :: "EIA608Frame \<Rightarrow> 16 word \<Rightarrow> (EIA608Frame \<times> bool) result" where
  "parseControl f u =
     (let cmd = ctlCmd u in
      if cmd = eia608_control_resume_direct_captioning then
        bindR (selectFront f 1) (\<lambda>f1. Inr (f1, False))
      else if cmd = eia608_control_erase_display_memory then
        Inr (f\<lparr>front := clear (front f)\<rparr>, True)
      else if cmd = eia608_control_roll_up_2 then
        bindR (selectFront f 2) (\<lambda>f1. Inr (f1, False))
      else if cmd = eia608_control_roll_up_3 then
        bindR (selectFront f 3) (\<lambda>f1. Inr (f1, False))
      else if cmd = eia608_control_roll_up_4 then
        bindR (selectFront f 4) (\<lambda>f1. Inr (f1, False))
      else if cmd = eia608_control_carriage_return then
        (case active f of
           None \<Rightarrow> Inr (f, False)
         | Some s \<Rightarrow>
             (let f1 = f\<lparr>col := 0\<rparr> in
              bindR (carriageReturn (buf f1 s) (row f1)) (\<lambda>b.
              bindR (updActiveState (setBuf f1 s b) (\<lambda>st. st\<lparr>Col := 0\<rparr>)) (\<lambda>f2.
              Inr (f2, False)))))
      else if cmd = eia608_control_backspace then
        (if active f = None then Inr (f, False)
         else bindR (backspace f) (\<lambda>f1. Inr (f1, False)))
      else if cmd = eia608_control_delete_to_end_of_row then
        (if active f = None then Inr (f, False)
         else bindR (deleteLoop f (col f)) (\<lambda>f1. Inr (f1, False)))
      else if cmd = eia608_control_resume_caption_loading then
        bindR (updActiveState (f\<lparr>active := Some Back\<rparr>) (\<lambda>st. st\<lparr>Rollup := 0\<rparr>))
          (\<lambda>f1. Inr (f1, False))
      else if cmd = eia608_control_erase_non_displayed_memory then
        Inr (f\<lparr>back := clear (back f)\<rparr>, False)
      else if cmd = eia608_control_end_of_caption then
        (let f1 = f\<lparr>front := back f, back := front f\<rparr>;
             f2 = f1\<lparr>back := clearState (back f1)\<rparr>;
             f3 = f2\<lparr>col := 0, row := 0\<rparr>
         in Inr (f3\<lparr>active := Some Back\<rparr>, True))
      else if cmd = eia608_tab_offset_1 then tabOffset f 1
      else if cmd = eia608_tab_offset_2 then tabOffset f 2
      else if cmd = eia608_tab_offset_3 then tabOffset f 3
      else Inr (f, False))"


subsection \<open>Preamble, mid-row and text handlers\<close>

definition parsePreamble :: "EIA608Frame \<Rightarrow> 16 word \<Rightarrow> (EIA608Frame \<times> goerror option) result" where
  "parsePreamble f u =
     (let idx = drop_bit 7 (0x0700 AND u) OR drop_bit 5 (0x0020 AND u) in
      if unat idx < length rowMap then
        (let f1 = f\<lparr>row := rowMap ! unat idx\<rparr>;
             f2 = f1\<lparr>underline := (0x0001 AND u = 1)\<rparr>;
             f3 = f2\<lparr>col := 0, style := 0\<rparr>;
             f4 = (if 0x0010 AND u = 0
                   then f3\<lparr>style := ucast (drop_bit 1 (0x000E AND u))\<rparr>
                   else f3\<lparr>col := ucast (4 * drop_bit 1 (0x000E AND u))\<rparr>)
         in bindR (updActiveState f4 (\<lambda>st. st\<lparr>Row := row f4\<rparr>)) (\<lambda>f5.
            bindR (updActiveState f5 (\<lambda>st. st\<lparr>Col := col f5\<rparr>)) (\<lambda>f6.
            Inr (f6, None))))
      else Inl IndexOutOfRange)"

definition parseMidRowChange :: "EIA608Frame \<Rightarrow> 16 word \<Rightarrow> EIA608Frame \<times> goerror option" where
  "parseMidRowChange f u =
     (if 0x1120 = (0x7770 AND u)
      then (f\<lparr>style := ucast (drop_bit 1 (0x000E AND u)), underline := (0x0001 AND u = 1)\<rparr>, None)
      else (f, None))"

definition writeChar :: "EIA608Frame \<Rightarrow> 16 word \<Rightarrow> (EIA608Frame \<times> bool) result" where
  "writeChar f i =
     (let ch = (if unat i < length charMap then charMap ! unat i else 0xFFFD) in
      bindR (setCharActive f (row f) (col f)
               \<lparr>cell_underline = underline f, cell_style = style f, cell_char = ch\<rparr>)
        (\<lambda>(f1, r). Inr (if col f1 < Cols then f1\<lparr>col := col f1 + 1\<rparr> else f1, r)))"

definition parseText :: "EIA608Frame \<Rightarrow> 16 word \<Rightarrow> (EIA608Frame \<times> goerror option) result" where
  "parseText f u =
     (if isBasicNA u then
        bindR (writeChar f (drop_bit 8 u - 0x20)) (\<lambda>(f1, _).
          (let u2 = u AND 0x00FF in
           if 0x0020 \<le> u2 \<and> 0x0080 > u2
           then bindR (writeChar f1 (u2 - 0x20)) (\<lambda>(f2, _). Inr (f2, None))
           else Inr (f1, None)))
      else
        (let u1 = u AND 0xF7FF in
         if isSpecialNA u1 then
           bindR (writeChar f (u1 - 0x1130 + 0x60)) (\<lambda>(f1, _). Inr (f1, None))
         else if 0x1220 \<le> u1 \<and> 0x1240 > u1 then
           bindR (backspace f) (\<lambda>f1.
           bindR (writeChar f1 (u1 - 0x1220 + 0x70)) (\<lambda>(f2, _). Inr (f2, None)))
         else if 0x1320 \<le> u1 \<and> 0x1340 > u1 then
           bindR (backspace f) (\<lambda>f1.
           bindR (writeChar f1 (u1 - 0x1320 + 0x90)) (\<lambda>(f2, _). Inr (f2, None)))
         else Inr (f, None)))"

subsection \<open>Decode, String and StateSnapshot\<close>

text \<open>The read \<^verbatim>\<open>f.active.state.Rollup\<close>.\<close>

definition activeRollup :: "EIA608Frame \<Rightarrow> 64 word result" where
  "activeRollup f =
     (case active f of None \<Rightarrow> Inl NilDereference | Some s \<Rightarrow> Inr (Rollup (state (buf f s))))"

text \<open>
  \<^verbatim>\<open>Decode\<close> returns \<^verbatim>\<open>(bool, error)\<close> and mutates the frame: here the new frame, the
  flag and the error (\<open>None\<close> for \<^verbatim>\<open>nil\<close>), or the panic.
\<close>

definition Decode :: "EIA608Frame \<Rightarrow> 16 word \<Rightarrow> (EIA608Frame \<times> bool \<times> goerror option) result" where
  "Decode f u0 =
     (if parityWord u0 \<noteq> u0 then Inr (f, False, None)
      else
        (let u = u0 AND 0x7F7F in
         if u = 0 then Inr (f, False, None)
         else if (isSpecialNA u \<or> isControl u) \<and> u = ccData f then Inr (f, False, None)
         else
           (let f1 = f\<lparr>ccData := u\<rparr> in
            if isControl u then bindR (parseControl f1 u) (\<lambda>(f2, r). Inr (f2, r, None))
            else if active f1 = None then Inr (f1, False, None)
            else if isPreamble u then
              bindR (parsePreamble f1 u) (\<lambda>(f2, e). Inr (f2, False, e))
            else if isMidRowChange u then
              (let (f2, e) = parseMidRowChange f1 u in Inr (f2, False, e))
            else if isBasicNA u \<or> isSpecialNA u \<or> isWesternEu u then
              bindR (parseText f1 u) (\<lambda>(f2, e).
                case e of
                  Some err \<Rightarrow> Inr (f2, False, Some err)
                | None \<Rightarrow> bindR (activeRollup f2) (\<lambda>r. Inr (f2, word_sless 0 r, None)))
            else Inr (f1, False, None))))"


definition StateSnapshot :: "EIA608Frame \<Rightarrow> EIA608State" where
  "StateSnapshot f =
     (if active f = None then zeroState\<lparr>Mode := Mode608_Unknown\<rparr>
      else
        (let fb = front f;
             mode = (if word_sless 0 (Rollup (state fb)) then Mode608_PaintOn else Mode608_PopOn)
         in \<lparr>Mode = mode, Rollup = Rollup (state fb), Row = Rows - Row (state fb),
             Col = Col (state fb), Content = String fb\<rparr>))"

text \<open>
  A caller's loop over a stream of units, as in the tests
  (\<^verbatim>\<open>for _, c := range cc { ok, err := eia608.Decode(c) ... }\<close>); a panic ends it.
\<close>

fun decodeAll :: "EIA608Frame \<Rightarrow> 16 word list \<Rightarrow> EIA608Frame result" where
  "decodeAll f [] = Inr f"
| "decodeAll f (u # us) = bindR (Decode f u) (\<lambda>(f1, _). decodeAll f1 us)"


section \<open>CEA-708 envelope (cea708.go)\<close>

text \<open>
  Go's \<^verbatim>\<open>len\<close> and the index variable \<^verbatim>\<open>i\<close> are \<^verbatim>\<open>int\<close>; no value here comes near
  the 64-bit range, so they are \<open>int\<close>. An index or slice expression out of range panics.
  (A slice expression may reach up to the capacity; the model panics beyond the length,
  which the code never asks for.)
\<close>

definition index :: "'a list \<Rightarrow> int \<Rightarrow> 'a result" where
  "index xs i = (if 0 \<le> i \<and> i < int (length xs) then Inr (xs ! nat i) else Inl IndexOutOfRange)"

definition slice_go :: "'a list \<Rightarrow> int \<Rightarrow> int \<Rightarrow> 'a list result" where
  "slice_go xs lo hi =
     (if 0 \<le> lo \<and> lo \<le> hi \<and> hi \<le> int (length xs)
      then Inr (take (nat (hi - lo)) (drop (nat lo) xs))
      else Inl IndexOutOfRange)"

text \<open>\<^verbatim>\<open>binary.BigEndian.Uint16\<close> and \<^verbatim>\<open>Uint32\<close>.\<close>

definition Uint16 :: "8 word list \<Rightarrow> 16 word result" where
  "Uint16 b =
     (if length b < 2 then Inl IndexOutOfRange
      else Inr (ucast (b ! 1) OR push_bit 8 (ucast (b ! 0))))"

definition Uint32 :: "8 word list \<Rightarrow> 32 word result" where
  "Uint32 b =
     (if length b < 4 then Inl IndexOutOfRange
      else Inr (ucast (b ! 3) OR push_bit 8 (ucast (b ! 2)) OR push_bit 16 (ucast (b ! 1))
                OR push_bit 24 (ucast (b ! 0))))"

abbreviation (input) Provider_DirectTV :: int where "Provider_DirectTV \<equiv> 47"
abbreviation (input) Provider_ATSC :: int where "Provider_ATSC \<equiv> 49"
abbreviation (input) ntsc_cc_field_1 :: "8 word" where "ntsc_cc_field_1 \<equiv> 0"

record cea708_cc_data =
  marker_bits :: "8 word"
  cc_valid :: bool
  cc_type :: "8 word"
  cc_data :: "16 word"

record cea708_user_data =
  process_em_data_flag :: bool
  process_cc_data_flag :: bool
  additional_data_flag :: bool
  cc_count :: "8 word"
  em_data :: "8 word"
  ud_cc_data :: "cea708_cc_data list"

record cea708 =
  provider :: int
  user_identifier :: "32 word"
  user_data_type_code :: int
  itu_t_t35_country_code :: int
  itu_t_t35_country_code_extension_byte :: "8 word"

definition isPrintable :: "cea708_cc_data \<Rightarrow> bool" where
  "isPrintable cd \<longleftrightarrow> cc_valid cd \<and> cc_type cd = ntsc_cc_field_1"

definition printableCCData :: "cea708_user_data \<Rightarrow> 16 word list" where
  "printableCCData ud = map cc_data (filter isPrintable (ud_cc_data ud))"

text \<open>
  The loop of \<^verbatim>\<open>parseCEA708UserData\<close>:
  \<^verbatim>\<open>for i := 2; i+2 < len(data) && byte(len(ud.cc_data)) < ud.cc_count; i += 3\<close>.
\<close>

function ccLoop :: "8 word list \<Rightarrow> 8 word \<Rightarrow> int \<Rightarrow> cea708_cc_data list \<Rightarrow> cea708_cc_data list result" where
  "ccLoop dat cnt i acc =
     (if i + 2 < int (length dat) \<and> (of_nat (length acc) :: 8 word) < cnt
      then bindR (slice_go dat i (i + 3)) (\<lambda>d.
           bindR (index d 0) (\<lambda>d0.
           bindR (slice_go d 1 3) (\<lambda>d13.
           bindR (Uint16 d13) (\<lambda>w.
             ccLoop dat cnt (i + 3)
               (acc @ [\<lparr>marker_bits = drop_bit 3 d0, cc_valid = (d0 AND 0x40 = 0x40),
                        cc_type = d0 AND 0x3, cc_data = w\<rparr>])))))
      else Inr acc)"
  by pat_completeness auto
termination
  by (relation "measure (\<lambda>(dat, cnt, i, acc). nat (int (length dat) - i))") auto

declare ccLoop.simps [simp del]

definition parseCEA708UserData :: "8 word list \<Rightarrow> (goerror + cea708_user_data) result" where
  "parseCEA708UserData dat =
     (if length dat \<le> 2 then Inr (Inl (ErrorString ''insufficient cea708 user data''))
      else
        bindR (index dat 0) (\<lambda>b0.
        bindR (index dat 1) (\<lambda>b1.
          (let ud = \<lparr>process_em_data_flag = (b0 AND 0x80 = 0x80),
                     process_cc_data_flag = (b0 AND 0x40 = 0x40),
                     additional_data_flag = (b0 AND 0x20 = 0x20),
                     cc_count = b0 AND 0x1F,
                     em_data = b1,
                     ud_cc_data = []\<rparr>
           in bindR (ccLoop dat (cc_count ud) 2 (ud_cc_data ud)) (\<lambda>ccs.
                if int (length ccs) \<noteq> uint (cc_count ud)
                then Inr (Inl (ErrorString ''mismatched cc count''))
                else Inr (Inr (ud\<lparr>ud_cc_data := ccs\<rparr>)))))))"

definition zero708 :: cea708 where
  "zero708 = \<lparr>provider = 0, user_identifier = 0, user_data_type_code = 0,
              itu_t_t35_country_code = 0, itu_t_t35_country_code_extension_byte = 0\<rparr>"

definition parseCEA708 :: "8 word list \<Rightarrow> (goerror + cea708_user_data) result" where
  "parseCEA708 dat =
     (let sz = int (length dat) in
      if sz < 4 then Inr (Inl (ErrorString ''insuffucient data to detect payload size''))
      else
        bindR (index dat 0) (\<lambda>b0.
        (let c1 = zero708\<lparr>itu_t_t35_country_code := uint b0\<rparr>; i1 = 1 in
        bindR (if itu_t_t35_country_code c1 = 0xFF
               then bindR (index dat i1) (\<lambda>e.
                      Inr (c1\<lparr>itu_t_t35_country_code_extension_byte := e\<rparr>, i1 + 1))
               else Inr (c1, i1)) (\<lambda>(c2, i2).
        bindR (slice_go dat i2 (i2 + 2)) (\<lambda>pb.
        bindR (Uint16 pb) (\<lambda>pw.
        (let c3 = c2\<lparr>provider := uint pw\<rparr>; i3 = i2 + 2 in
        if provider c3 = Provider_ATSC \<and> sz - i3 < 4
        then Inr (Inl (ErrorString ''insufficient data to read user identifier''))
        else
        bindR (if provider c3 = Provider_ATSC
               then bindR (slice_go dat i3 (i3 + 4)) (\<lambda>ub.
                    bindR (Uint32 ub) (\<lambda>uw.
                      Inr (c3\<lparr>user_identifier := uw\<rparr>, i3 + 4)))
               else Inr (c3, i3)) (\<lambda>(c4, i4).
        (let i5 = (if 0 = provider c4 \<and> 0 = itu_t_t35_country_code c4 then i4 + 1 else i4) in
        if (provider c4 = Provider_ATSC \<or> provider c4 = Provider_DirectTV) \<and> sz - i5 \<le> 1
        then Inr (Inl (ErrorString ''insufficient data to read provider type code''))
        else
        bindR (if provider c4 = Provider_ATSC \<or> provider c4 = Provider_DirectTV
               then bindR (index dat i5) (\<lambda>t.
                      Inr (c4\<lparr>user_data_type_code := uint t\<rparr>, i5 + 1))
               else Inr (c4, i5)) (\<lambda>(c6, i6).
        if 3 = user_data_type_code c6 \<and> sz - i6 \<ge> 2
        then bindR (slice_go dat i6 sz) parseCEA708UserData
        else Inr (Inl (ErrorString ''trailing user data''))))))))))))"

text \<open>
  \<^verbatim>\<open>CEA708ToCCData\<close> returns \<^verbatim>\<open>(nil, err)\<close> or \<^verbatim>\<open>(units, nil)\<close>: \<open>Inl\<close> the error,
  carrying no units.
\<close>

definition CEA708ToCCData :: "8 word list \<Rightarrow> (goerror + 16 word list) result" where
  "CEA708ToCCData dat =
     bindR (parseCEA708 dat) (\<lambda>r.
       case r of Inl err \<Rightarrow> Inr (Inl err) | Inr user_data \<Rightarrow> Inr (Inr (printableCCData user_data)))"

section \<open>Auxiliary definitions for the statements\<close>

text \<open>Exclusive or of the seven low bits.\<close>

definition xor7 :: "(nat \<Rightarrow> bool) \<Rightarrow> bool" where
  "xor7 f = (f 6 \<noteq> (f 5 \<noteq> (f 4 \<noteq> (f 3 \<noteq> (f 2 \<noteq> (f 1 \<noteq> f 0))))))"

text \<open>A 16-bit unit from its two bytes.\<close>

definition join16 :: "8 word \<Rightarrow> 8 word \<Rightarrow> 16 word" where
  "join16 a b = push_bit 8 (ucast a) OR ucast b"

text \<open>The frames that differ from \<open>f\<close> at most in the cells of buffer \<open>s\<close> and in the cursor column.\<close>

definition touches :: "sel \<Rightarrow> EIA608Frame \<Rightarrow> EIA608Frame \<Rightarrow> bool" where
  "touches s f f' \<longleftrightarrow>
     ccData f' = ccData f \<and> active f' = active f \<and> row f' = row f \<and>
     underline f' = underline f \<and> style f' = style f \<and>
     state (buf f' s) = state (buf f s) \<and>
     (case s of Back \<Rightarrow> front f' = front f | Front \<Rightarrow> back f' = back f)"

text \<open>
  What a step that is not a control may change when buffer \<open>s\<close> is active: the other buffer,
  the selector and the roll-up depth stay; the cursor row and the configured row stay or
  are replaced by an entry of \<open>rowMap\<close>.
\<close>

definition keeps :: "sel \<Rightarrow> EIA608Frame \<Rightarrow> EIA608Frame \<Rightarrow> bool" where
  "keeps s f f' \<longleftrightarrow>
     active f' = active f \<and>
     (case s of Back \<Rightarrow> front f' = front f | Front \<Rightarrow> back f' = back f) \<and>
     Rollup (state (buf f' s)) = Rollup (state (buf f s)) \<and>
     ((row f' = row f \<and> Row (state (buf f' s)) = Row (state (buf f s))) \<or>
      (row f' \<in> set rowMap \<and> Row (state (buf f' s)) = row f'))"

text \<open>The control codes that set \<open>f.active\<close>.\<close>

definition selectsActive :: "16 word \<Rightarrow> bool" where
  "selectsActive u \<longleftrightarrow>
     isControl u \<and>
     ctlCmd u \<in> {eia608_control_resume_direct_captioning, eia608_control_roll_up_2,
                 eia608_control_roll_up_3, eia608_control_roll_up_4,
                 eia608_control_resume_caption_loading, eia608_control_end_of_caption}"

text \<open>The bounds that hold in every state of a run.\<close>

definition cursorInv :: "EIA608Frame \<Rightarrow> bool" where
  "cursorInv f \<longleftrightarrow>
     row f \<le> 15 \<and>
     Rollup (state (front f)) \<in> {0, 1, 2, 3, 4} \<and> Rollup (state (back f)) \<in> {0, 1, 2, 3, 4} \<and>
     Row (state (front f)) \<le> 15 \<and> Row (state (back f)) \<le> 15"

text \<open>The cell that \<open>writeChar\<close> writes for index \<open>i\<close> with the current attributes.\<close>

definition glyphCell :: "EIA608Frame \<Rightarrow> 16 word \<Rightarrow> frameBufferChar" where
  "glyphCell f i =
     \<lparr>cell_underline = underline f, cell_style = style f,
      cell_char = (if unat i < length charMap then charMap ! unat i else 0xFFFD)\<rparr>"


text \<open>The code point stored at a position of the back buffer.\<close>

definition backCell :: "nat \<Rightarrow> nat \<Rightarrow> EIA608Frame \<Rightarrow> 32 word" where
  "backCell r c f = cell_char (data (back f) ! r ! c)"

text \<open>
  The roll-up shift in the words of the specification: copy row+k \<leftarrow> row+k-1 for
  k = R-1 down to 1, then clear row \<open>row\<close>.
\<close>

definition spec_rollupShift :: "nat \<Rightarrow> nat \<Rightarrow> frameBufferRow list \<Rightarrow> frameBufferRow list" where
  "spec_rollupShift R rw d =
     (foldl (\<lambda>d k. d[rw + k := d ! (rw + k - 1)]) d (rev [1..<R]))[rw := emptyRow]"

text \<open>
  The envelope header in the words of the specification: a country-code byte (plus an
  extension byte if it equals 0xFF), a 16-bit provider identifier (47 or 49), a 4-byte user
  identifier when the provider is 49, and the user-data-type-code byte, here 3, after which
  the caption block follows.
\<close>

inductive envelopeHeader :: "8 word list \<Rightarrow> bool" where
  directv: "c \<noteq> 0xFF \<Longrightarrow> envelopeHeader [c, 0, 47, 3]"
| directv_ext: "envelopeHeader [0xFF, e, 0, 47, 3]"
| atsc: "c \<noteq> 0xFF \<Longrightarrow> envelopeHeader [c, 0, 49, u1, u2, u3, u4, 3]"
| atsc_ext: "envelopeHeader [0xFF, e, 0, 49, u1, u2, u3, u4, 3]"

code_pred envelopeHeader .


text \<open>A cell holding a code point, with no attributes.\<close>

definition plainCell :: "32 word \<Rightarrow> frameBufferChar" where
  "plainCell c = \<lparr>cell_underline = False, cell_style = 0, cell_char = c\<rparr>"

text \<open>The row that reads HI from its left edge, and the fresh buffer with that row at index 0.\<close>

definition hiRow :: frameBufferRow where
  "hiRow = emptyRow[0 := plainCell 0x48, 1 := plainCell 0x49]"

definition hiBuffer :: frameBuffer where
  "hiBuffer = zeroBuffer\<lparr>data := emptyData[0 := hiRow]\<rparr>"


section \<open>Parity\<close>

lemma bit_0x80_64: "bit (0x80 :: 64 word) n \<longleftrightarrow> n = 7"
proof -
  have "(0x80 :: 64 word) = 2 ^ 7" by simp
  then show ?thesis by (simp only: bit_exp_iff) (auto simp: bit_simps)
qed

lemma bit_0x80_8: "bit (0x80 :: 8 word) n \<longleftrightarrow> n = 7"
proof -
  have "(0x80 :: 8 word) = 2 ^ 7" by simp
  then show ?thesis by (simp only: bit_exp_iff) (auto simp: bit_simps)
qed

lemma bit_0x7F_64: "bit (0x7F :: 64 word) n \<longleftrightarrow> n < 7"
proof -
  have "(0x7F :: 64 word) = mask 7" by (simp add: mask_eq_exp_minus_1)
  then show ?thesis by (simp only: bit_mask_iff) (auto simp: bit_simps)
qed

lemma bit_0x7F_8: "bit (0x7F :: 8 word) n \<longleftrightarrow> n < 7"
proof -
  have "(0x7F :: 8 word) = mask 7" by (simp add: mask_eq_exp_minus_1)
  then show ?thesis by (simp only: bit_mask_iff) (auto simp: bit_simps)
qed

lemma bit_bx: "bit (bx b x) n \<longleftrightarrow> n = 7 \<and> x \<le> 7 \<and> bit b (7 - x)"
proof -
  have "bit (bx b x) n \<longleftrightarrow> n < 8 \<and> bit (push_bit x b) n \<and> bit (0x80 :: 64 word) n"
    unfolding bx_def by (simp only: bit_ucast_iff bit_and_iff) simp
  also have "\<dots> \<longleftrightarrow> n = 7 \<and> bit (push_bit x b) 7"
    unfolding bit_0x80_64 by auto
  also have "\<dots> \<longleftrightarrow> n = 7 \<and> x \<le> 7 \<and> bit b (7 - x)"
    by (simp add: bit_push_bit_iff) 
  finally show ?thesis .
qed


lemma bit_parity_bit:
  "bit (0x80 XOR bx i 1 XOR bx i 2 XOR bx i 3 XOR bx i 4 XOR bx i 5 XOR bx i 6 XOR bx i 7) n
     \<longleftrightarrow> n = 7 \<and> \<not> xor7 (bit i)"
proof (cases "n = 7")
  case True
  then show ?thesis
    unfolding bit_xor_iff bit_bx bit_0x80_8 xor7_def by simp
next
  case False
  then show ?thesis
    unfolding bit_xor_iff bit_bx bit_0x80_8 by simp
qed

lemma bit_parityEntry: "bit (parityEntry i) n \<longleftrightarrow> (n < 7 \<and> bit i n) \<or> (n = 7 \<and> \<not> xor7 (bit i))"
  unfolding parityEntry_def bit_or_iff bit_parity_bit bit_ucast_iff bit_and_iff bit_0x7F_64
  by auto

lemma popcount_alt: "popcount b = of_bool (bit b 0) + of_bool (bit b 1) + of_bool (bit b 2) + of_bool (bit b 3)
   + of_bool (bit b 4) + of_bool (bit b 5) + of_bool (bit b 6) + of_bool (bit b 7)"
  by (simp add: popcount_def upt_rec numeral_eq_Suc)

lemma parity_bools: "odd (of_bool b0 + of_bool b1 + of_bool b2 + of_bool b3 + of_bool b4 + of_bool b5 + of_bool b6 :: nat)
    \<longleftrightarrow> (b6 \<noteq> (b5 \<noteq> (b4 \<noteq> (b3 \<noteq> (b2 \<noteq> (b1 \<noteq> b0))))))"
  by (cases b0; cases b1; cases b2; cases b3; cases b4; cases b5; cases b6; simp)

lemma odd_plus_of_bool: "odd (x + of_bool c :: nat) \<longleftrightarrow> (c \<noteq> odd x)"
  by (cases c) simp_all

lemma odd_popcount_iff: "odd (popcount b) \<longleftrightarrow> (bit b 7 \<noteq> xor7 (bit b))"
  unfolding popcount_alt xor7_def
  by (subst odd_plus_of_bool) (simp only: parity_bools)

lemma odd_popcount_low7: "odd (popcount (b AND 0x7F)) \<longleftrightarrow> xor7 (bit b)"
  unfolding odd_popcount_iff xor7_def bit_and_iff bit_0x7F_8 by simp

lemma odd_popcount_parityEntry: "odd (popcount (parityEntry i))"
proof -
  have "xor7 (bit (parityEntry i)) = xor7 (bit i)"
    unfolding xor7_def bit_parityEntry by simp
  moreover have "bit (parityEntry i) 7 = (\<not> xor7 (bit i))"
    unfolding bit_parityEntry by simp
  ultimately show ?thesis
    unfolding odd_popcount_iff by simp
qed

lemma parityTable_nth: "v < 128 \<Longrightarrow> parityTable ! v = parityEntry (of_nat v)"
  by (simp add: parityTable_def)

lemma parityEntry_low: "v < 128 \<Longrightarrow> parityEntry (of_nat v) AND 0x7F = of_nat v"
proof (rule bit_eqI)
  fix n
  assume v: "v < 128" 
  have nb: "\<not> bit v m" if "7 \<le> m" for m
  proof -
    have "(2::nat) ^ 7 \<le> 2 ^ m" using that by (intro power_increasing) simp_all
    then have "v < 2 ^ m" using v by simp
    then show ?thesis by (simp add: bit_iff_odd)
  qed
  show "bit (parityEntry (of_nat v) AND 0x7F :: 8 word) n = bit (of_nat v :: 8 word) n"
    using nb[of n] unfolding bit_and_iff bit_parityEntry bit_0x7F_8 bit_of_nat_iff
    by (cases "n < 7") auto
qed

lemma parityByte_entry: "parityByte b = parityEntry (ucast (0x7F AND b))"
proof -
  have "unat (0x7F AND b) \<le> unat (0x7F :: 8 word)"
    by (rule word_and_le2 [THEN word_le_nat_alt [THEN iffD1]])
  then have "unat (0x7F AND b) < 128" by simp
  then show ?thesis by (simp add: parityByte_def parityTable_nth)
qed

lemma parityByte_fix: "parityByte b = b \<longleftrightarrow> (bit b 7 \<longleftrightarrow> \<not> xor7 (bit b))"
proof -
  have bits: "bit (parityByte b) n \<longleftrightarrow> (n < 7 \<and> bit b n) \<or> (n = 7 \<and> \<not> xor7 (bit b))" for n
  proof -
    have "xor7 (bit (ucast (0x7F AND b) :: 64 word)) = xor7 (bit b)"
      unfolding xor7_def bit_ucast_iff bit_and_iff bit_0x7F_8 by simp
    then show ?thesis
      unfolding parityByte_entry bit_parityEntry bit_ucast_iff bit_and_iff bit_0x7F_8
      by auto
  qed
  show ?thesis
  proof
    assume "parityByte b = b"
    then have "bit (parityByte b) 7 = bit b 7" by simp
    then show "bit b 7 \<longleftrightarrow> \<not> xor7 (bit b)" unfolding bits by simp
  next
    assume h: "bit b 7 \<longleftrightarrow> \<not> xor7 (bit b)"
    show "parityByte b = b"
    proof (rule bit_eqI)
      fix n assume "possible_bit TYPE(8 word) n"
      then have n: "n < 8" by simp
      show "bit (parityByte b) n = bit b n"
      proof (cases "n = 7")
        case True then show ?thesis unfolding bits using h by simp
      next
        case False with n have "n < 7" by simp
        then show ?thesis unfolding bits by simp
      qed
    qed
  qed
qed



lemma bit_join16: "bit (join16 a b) n \<longleftrightarrow> (n < 8 \<and> bit b n) \<or> (8 \<le> n \<and> n < 16 \<and> bit a (n - 8))"
  unfolding join16_def bit_or_iff bit_push_bit_iff bit_ucast_iff
  by (auto simp: bit_imp_le_length dest: bit_imp_le_length)

lemma join16_inj: "join16 a b = join16 a' b' \<longleftrightarrow> a = a' \<and> b = b'"
proof
  assume e: "join16 a b = join16 a' b'"
  have "bit a n = bit a' n" for n
  proof (cases "n < 8")
    case True
    from e have "bit (join16 a b) (n + 8) = bit (join16 a' b') (n + 8)" by simp
    with True show ?thesis unfolding bit_join16 by simp
  next
    case False
    then show ?thesis using bit_imp_le_length[of a n] bit_imp_le_length[of a' n] by auto
  qed
  moreover have "bit b n = bit b' n" for n
  proof (cases "n < 8")
    case True
    from e have "bit (join16 a b) n = bit (join16 a' b') n" by simp
    with True show ?thesis unfolding bit_join16 by simp
  next
    case False
    then show ?thesis using bit_imp_le_length[of b n] bit_imp_le_length[of b' n] by auto
  qed
  ultimately show "a = a' \<and> b = b'" by (simp add: bit_eq_iff)
qed simp

lemma join16_split: "join16 (ucast (drop_bit 8 u)) (ucast u) = u"
proof (rule bit_eqI)
  fix n assume "possible_bit TYPE(16 word) n"
  then have "n < 16" by simp
  then show "bit (join16 (ucast (drop_bit 8 u)) (ucast u)) n = bit u n"
    unfolding bit_join16 bit_ucast_iff bit_drop_bit_eq by (cases "n < 8") auto
qed

lemma parityWord_join: "parityWord u = join16 (parityByte (ucast (drop_bit 8 u))) (parityByte (ucast u))"
  by (simp add: parityWord_def parityByte_def join16_def Let_def)

lemma parityWord_fix: "parityWord u = u \<longleftrightarrow>
   parityByte (ucast (drop_bit 8 u)) = ucast (drop_bit 8 u) \<and> parityByte (ucast u) = ucast u"
proof -
  have "parityWord u = u \<longleftrightarrow> parityWord u = join16 (ucast (drop_bit 8 u)) (ucast u)"
    by (simp only: join16_split)
  then show ?thesis unfolding parityWord_join join16_inj .
qed

lemma even_popcount_low7: "even (popcount (b AND 0x7F)) \<longleftrightarrow> \<not> xor7 (bit b)"
  using odd_popcount_low7 [of b] by blast

text \<open>
  C8. For every 7-bit value \<open>v\<close> the table entry keeps \<open>v\<close> in its low seven bits and has
  an odd number of set bits among its eight bits. So a byte fails the parity check
  (\<open>parityByte b \<noteq> b\<close>) exactly when its high bit differs from the odd-parity bit of its
  low seven bits, and a unit passes \<open>parityWord\<close> exactly when both of its bytes pass.
\<close>

theorem parityTable_odd_parity:
  "(\<forall>v<128. parityTable ! v AND 0x7F = of_nat v \<and> odd (popcount (parityTable ! v)))
   \<and> (\<forall>b. parityByte b \<noteq> b \<longleftrightarrow> bit b 7 \<noteq> even (popcount (b AND 0x7F)))
   \<and> (\<forall>u. parityWord u = u \<longleftrightarrow>
          parityByte (ucast (drop_bit 8 u)) = ucast (drop_bit 8 u) \<and> parityByte (ucast u) = ucast u)"
proof (intro conjI allI impI)
  fix v :: nat assume "v < 128"
  then show "parityTable ! v AND 0x7F = of_nat v"
    by (simp only: parityTable_nth parityEntry_low)
next
  fix v :: nat assume "v < 128"
  then show "odd (popcount (parityTable ! v))"
    by (simp add: parityTable_nth odd_popcount_parityEntry)
next
  fix b :: "8 word"
  show "parityByte b \<noteq> b \<longleftrightarrow> bit b 7 \<noteq> even (popcount (b AND 0x7F))"
    unfolding parityByte_fix even_popcount_low7 by simp
next
  fix u :: "16 word"
  show "parityWord u = u \<longleftrightarrow>
          parityByte (ucast (drop_bit 8 u)) = ucast (drop_bit 8 u) \<and> parityByte (ucast u) = ucast u"
    by (rule parityWord_fix)
qed

theorem parityTable_odd_parity_witness:
  "(5::nat) < 128 \<and> parityTable ! 5 AND 0x7F = of_nat 5 \<and> odd (popcount (parityTable ! 5))"
  using parityTable_odd_parity [THEN conjunct1, rule_format, of 5] by simp

section \<open>Basic facts about the decoder\<close>

lemma bindR_Inl [simp]: "bindR (Inl e) k = Inl e"
  by (simp add: bindR_def)

lemma bindR_Inr [simp]: "bindR (Inr v) k = k v"
  by (simp add: bindR_def)

lemma setBuf_fields [simp]:
  "ccData (setBuf f s b) = ccData f"
  "active (setBuf f s b) = active f"
  "row (setBuf f s b) = row f"
  "col (setBuf f s b) = col f"
  "underline (setBuf f s b) = underline f"
  "style (setBuf f s b) = style f"
  by (cases s; simp)+

lemma buf_setBuf [simp]: "buf (setBuf f s b) s = b"
  by (cases s) simp_all

lemma setBuf_setBuf [simp]: "setBuf (setBuf f s b) s b' = setBuf f s b'"
  by (cases s) simp_all

lemma setBuf_other [simp]:
  "front (setBuf f Back b) = front f"
  "back (setBuf f Front b) = back f"
  "front (setBuf f Front b) = b"
  "back (setBuf f Back b) = b"
  by simp_all

lemma buf_upd [simp]:
  "buf (f\<lparr>col := c\<rparr>) s = buf f s"
  "buf (f\<lparr>row := r\<rparr>) s = buf f s"
  "buf (f\<lparr>ccData := u\<rparr>) s = buf f s"
  "buf (f\<lparr>underline := ul\<rparr>) s = buf f s"
  "buf (f\<lparr>style := st\<rparr>) s = buf f s"
  "buf (f\<lparr>active := a\<rparr>) s = buf f s"
  by (cases s; simp)+

lemma setBuf_upd_col: "setBuf (f\<lparr>col := c\<rparr>) s b = (setBuf f s b)\<lparr>col := c\<rparr>"
  by (cases s) simp_all


lemma parseControl_no_active:
  assumes "active f = None"
    and "ctlCmd u \<in> {eia608_control_carriage_return, eia608_control_backspace,
            eia608_control_delete_to_end_of_row, eia608_tab_offset_1, eia608_tab_offset_2,
            eia608_tab_offset_3}"
  shows "parseControl f u = Inr (f, False)"
proof -
  from assms(2) consider "ctlCmd u = 0x142D" | "ctlCmd u = 0x1421" | "ctlCmd u = 0x1424"
    | "ctlCmd u = 0x1721" | "ctlCmd u = 0x1722" | "ctlCmd u = 0x1723"
    by blast
  then show ?thesis
    by cases (simp_all add: parseControl_def tabOffset_def assms(1))
qed


lemma isControl_nonzero: "isControl u \<Longrightarrow> u \<noteq> 0"
  by (auto simp: isControl_def)

lemma isSpecialNA_nonzero: "isSpecialNA u \<Longrightarrow> u \<noteq> 0"
  by (auto simp: isSpecialNA_def)

lemma Decode_parity_drop: "parityWord u \<noteq> u \<Longrightarrow> Decode f u = Inr (f, False, None)"
  by (simp add: Decode_def)

lemma Decode_padding: "u AND 0x7F7F = 0 \<Longrightarrow> Decode f u = Inr (f, False, None)"
  by (simp add: Decode_def)

lemma Decode_duplicate:
  "isSpecialNA (u AND 0x7F7F) \<or> isControl (u AND 0x7F7F) \<Longrightarrow> u AND 0x7F7F = ccData f
     \<Longrightarrow> Decode f u = Inr (f, False, None)"
  by (simp add: Decode_def Let_def)

lemma Decode_control:
  assumes "parityWord u = u" and "isControl (u AND 0x7F7F)" and "u AND 0x7F7F \<noteq> ccData f"
  shows "Decode f u = bindR (parseControl (f\<lparr>ccData := u AND 0x7F7F\<rparr>) (u AND 0x7F7F))
                        (\<lambda>(f2, r). Inr (f2, r, None))"
proof -
  define cc where "cc = u AND 0x7F7F"
  have "cc \<noteq> 0" using assms(2) unfolding cc_def by (rule isControl_nonzero)
  then show ?thesis
    using assms unfolding Decode_def Let_def cc_def [symmetric] by simp
qed


lemma setChar_state [simp]: "state (fst (setChar b r c ch)) = state b"
  by (simp add: setChar_def split: option.split)

lemma setCharActive_Some:
  "active f = Some s \<Longrightarrow>
     setCharActive f r c ch = Inr (setBuf f s (fst (setChar (buf f s) r c ch)), snd (setChar (buf f s) r c ch))"
  by (simp add: setCharActive_def split: prod.split)

lemma updActiveState_Some:
  "active f = Some s \<Longrightarrow>
     updActiveState f g = Inr (setBuf f s ((buf f s)\<lparr>state := g (state (buf f s))\<rparr>))"
  by (simp add: updActiveState_def)

lemma touches_refl [simp]: "touches s f f"
  unfolding touches_def by (cases s) simp_all

lemma touches_trans: "touches s f g \<Longrightarrow> touches s g h \<Longrightarrow> touches s f h"
  unfolding touches_def by (cases s) simp_all

lemma touches_setChar: "touches s f (setBuf f s (fst (setChar (buf f s) r c ch)))"
  unfolding touches_def by (cases s) simp_all

lemma touches_col: "touches s f f' \<Longrightarrow> touches s f (f'\<lparr>col := c\<rparr>)"
  unfolding touches_def by (cases s) simp_all

lemma touches_col_left: "touches s (f\<lparr>col := c\<rparr>) f' \<Longrightarrow> touches s f f'"
  unfolding touches_def by (cases s) simp_all

lemma setCharActive_touches:
  assumes "active f = Some s"
  shows "\<exists>f' x. setCharActive f r c ch = Inr (f', x) \<and> touches s f f'"
  using assms touches_setChar [of s f r c ch] by (simp add: setCharActive_Some)

lemma backspace_touches:
  assumes "active f = Some s"
  shows "\<exists>f'. backspace f = Inr f' \<and> touches s f f'"
proof -
  define f1 where "f1 = (if col f > 0 then f\<lparr>col := col f - 1\<rparr> else f)"
  have a1: "active f1 = Some s" using assms by (simp add: f1_def)
  have t1: "touches s f f1" by (simp add: f1_def touches_col)
  from setCharActive_touches [OF a1] obtain f' x
    where "setCharActive f1 (row f1) (col f1) emptyChar = Inr (f', x)" and "touches s f1 f'"
    by blast
  then show ?thesis
    using t1 unfolding backspace_def f1_def [symmetric] Let_def
    by (auto intro: touches_trans)
qed

lemma writeChar_touches:
  assumes "active f = Some s"
  shows "\<exists>f' x. writeChar f i = Inr (f', x) \<and> touches s f f'"
proof -
  define cell where "cell = \<lparr>cell_underline = underline f, cell_style = style f,
     cell_char = (if unat i < length charMap then charMap ! unat i else 0xFFFD)\<rparr>"
  from setCharActive_touches [OF assms] obtain f' x
    where "setCharActive f (row f) (col f) cell = Inr (f', x)" and "touches s f f'"
    by blast
  then show ?thesis
    unfolding writeChar_def Let_def cell_def [symmetric]
    by (auto intro: touches_col)
qed

lemma deleteLoop_touches:
  "active f = Some s \<Longrightarrow> \<exists>f'. deleteLoop f i = Inr f' \<and> touches s f f'"
proof (induction f i rule: deleteLoop.induct)
  case (1 f i)
  show ?case
  proof (cases "i < Cols")
    case False
    then show ?thesis by (subst deleteLoop.simps) simp
  next
    case True
    from setCharActive_touches [OF "1.prems"] obtain f1 x
      where sc: "setCharActive f (row f) i emptyChar = Inr (f1, x)" and t1: "touches s f f1"
      by blast
    from t1 "1.prems" have a1: "active f1 = Some s" by (simp add: touches_def)
    from "1.IH" [OF True a1] obtain f'
      where "deleteLoop f1 (i + 1) = Inr f'" and "touches s f1 f'"
      by auto
    with sc t1 True show ?thesis
      by (subst deleteLoop.simps) (auto intro: touches_trans)
  qed
qed


lemma preamble_row_index:
  fixes u :: "16 word"
  shows "unat (drop_bit 7 (0x0700 AND u) OR drop_bit 5 (0x0020 AND u)) < 16"
proof -
  let ?idx = "drop_bit 7 (0x0700 AND u) OR drop_bit 5 (0x0020 AND u)"
  have c1: "(0x0700 :: 16 word) = push_bit 8 (mask 3)" by (simp add: mask_eq_exp_minus_1)
  have c2: "(0x0020 :: 16 word) = push_bit 5 (mask 1)" by (simp add: mask_eq_exp_minus_1)
  have "?idx AND mask 4 = ?idx"
  proof (rule bit_eqI)
    fix n assume "possible_bit TYPE(16 word) n"
    show "bit (?idx AND mask 4) n = bit ?idx n"
      unfolding c1 c2
      by (auto simp add: bit_and_iff bit_or_iff bit_drop_bit_eq bit_mask_iff bit_push_bit_iff bit_1_iff)
  qed
  moreover have "?idx AND mask 4 < 2 ^ 4" by (rule and_mask_less') simp
  ultimately have "?idx < 16" by simp
  then show ?thesis by (simp add: word_less_nat_alt)
qed


lemma carriageReturn_state: "carriageReturn b r = Inr b' \<Longrightarrow> state b' = state b"
proof -
  assume a: "carriageReturn b r = Inr b'"
  show ?thesis
  proof (cases "r + Rollup (state b) \<ge> Rows + 1 \<or> r + Rollup (state b) \<le> 0")
    case True
    with a have "b' = b" by (simp add: carriageReturn_def Let_def)
    then show ?thesis by simp
  next
    case False
    show ?thesis
    proof (cases "crLoop r (Rollup (state b) - 1) 0 (data b)")
      case (Inl e)
      with a False show ?thesis by (simp add: carriageReturn_def Let_def)
    next
      case (Inr d)
      with a False have "r < Rows \<and> b' = b\<lparr>data := d[unat r := emptyRow]\<rparr>"
        by (simp add: carriageReturn_def Let_def split: if_splits)
      then show ?thesis by simp
    qed
  qed
qed

lemma parseControl_cases [consumes 1, case_names select erase_front cr touch rcl erase_back eoc tab noop]:
  assumes pc: "parseControl f u = Inr (f', r)"
  obtains
    n where "n \<in> {1, 2, 3, 4}" and "\<not> r"
      and "ctlCmd u \<in> {eia608_control_resume_direct_captioning, eia608_control_roll_up_2,
             eia608_control_roll_up_3, eia608_control_roll_up_4}"
      and "f' = f\<lparr>front := (front f)\<lparr>state := (state (front f))\<lparr>Rollup := n\<rparr>\<rparr>, active := Some Front\<rparr>"
  | "r" and "ctlCmd u = eia608_control_erase_display_memory" and "f' = f\<lparr>front := clear (front f)\<rparr>"
  | s b where "active f = Some s" and "\<not> r" and "carriageReturn (buf f s) (row f) = Inr b"
      and "f' = setBuf (f\<lparr>col := 0\<rparr>) s (b\<lparr>state := (state b)\<lparr>Col := 0\<rparr>\<rparr>)"
  | s where "active f = Some s" and "\<not> r" and "touches s f f'"
  | "\<not> r" and "ctlCmd u = eia608_control_resume_caption_loading"
      and "f' = f\<lparr>back := (back f)\<lparr>state := (state (back f))\<lparr>Rollup := 0\<rparr>\<rparr>, active := Some Back\<rparr>"
  | "\<not> r" and "ctlCmd u = eia608_control_erase_non_displayed_memory"
      and "f' = f\<lparr>back := clear (back f)\<rparr>"
  | "r" and "ctlCmd u = eia608_control_end_of_caption"
      and "f' = f\<lparr>front := back f, back := clearState (front f), col := 0, row := 0, active := Some Back\<rparr>"
  | s n where "active f = Some s" and "\<not> r"
      and "f' = setBuf (f\<lparr>col := col f + n\<rparr>) s ((buf f s)\<lparr>state := (state (buf f s))\<lparr>Col := Col (state (buf f s)) + n\<rparr>\<rparr>)"
  | "\<not> r" and "f' = f"
      and "ctlCmd u \<notin> {eia608_control_resume_direct_captioning, eia608_control_roll_up_2,
             eia608_control_roll_up_3, eia608_control_roll_up_4,
             eia608_control_resume_caption_loading, eia608_control_end_of_caption}"
proof -
  define cmd where "cmd = ctlCmd u"
  consider "cmd = 0x1429" | "cmd = 0x142C" | "cmd = 0x1425" | "cmd = 0x1426" | "cmd = 0x1427"
    | "cmd = 0x142D" | "cmd = 0x1421" | "cmd = 0x1424" | "cmd = 0x1420" | "cmd = 0x142E"
    | "cmd = 0x142F" | "cmd = 0x1721" | "cmd = 0x1722" | "cmd = 0x1723"
    | "cmd \<notin> {0x1429, 0x142C, 0x1425, 0x1426, 0x1427, 0x142D, 0x1421, 0x1424, 0x1420, 0x142E,
                0x142F, 0x1721, 0x1722, 0x1723}"
    by blast
  then show thesis
  proof cases
    case 1
    with pc have "\<not> r \<and> f' = f\<lparr>front := (front f)\<lparr>state := (state (front f))\<lparr>Rollup := 1\<rparr>\<rparr>, active := Some Front\<rparr>"
      by (auto simp: parseControl_def cmd_def selectFront_def updActiveState_def)
    then show ?thesis using that(1) [of 1] 1 by (simp add: cmd_def)
  next
    case 2
    with pc have "r \<and> f' = f\<lparr>front := clear (front f)\<rparr>"
      by (auto simp: parseControl_def cmd_def)
    then show ?thesis using that(2) 2 by (simp add: cmd_def)
  next
    case 3
    with pc have "\<not> r \<and> f' = f\<lparr>front := (front f)\<lparr>state := (state (front f))\<lparr>Rollup := 2\<rparr>\<rparr>, active := Some Front\<rparr>"
      by (auto simp: parseControl_def cmd_def selectFront_def updActiveState_def)
    then show ?thesis using that(1) [of 2] 3 by (simp add: cmd_def)
  next
    case 4
    with pc have "\<not> r \<and> f' = f\<lparr>front := (front f)\<lparr>state := (state (front f))\<lparr>Rollup := 3\<rparr>\<rparr>, active := Some Front\<rparr>"
      by (auto simp: parseControl_def cmd_def selectFront_def updActiveState_def)
    then show ?thesis using that(1) [of 3] 4 by (simp add: cmd_def)
  next
    case 5
    with pc have "\<not> r \<and> f' = f\<lparr>front := (front f)\<lparr>state := (state (front f))\<lparr>Rollup := 4\<rparr>\<rparr>, active := Some Front\<rparr>"
      by (auto simp: parseControl_def cmd_def selectFront_def updActiveState_def)
    then show ?thesis using that(1) [of 4] 5 by (simp add: cmd_def)
  next
    case 6
    show ?thesis
    proof (cases "active f")
      case None
      with 6 pc have "\<not> r \<and> f' = f" by (auto simp: parseControl_def cmd_def)
      then show ?thesis using that(9) 6 by (simp add: cmd_def)
    next
      case (Some s)
      with 6 pc obtain b where b: "carriageReturn (buf f s) (row f) = Inr b"
        by (cases "carriageReturn (buf f s) (row f)") (auto simp: parseControl_def cmd_def)
      have "active (setBuf (f\<lparr>col := 0\<rparr>) s b) = Some s" using Some by simp
      from updActiveState_Some [OF this] 6 pc Some b
      have "\<not> r \<and> f' = setBuf (f\<lparr>col := 0\<rparr>) s (b\<lparr>state := (state b)\<lparr>Col := 0\<rparr>\<rparr>)"
        by (auto simp: parseControl_def cmd_def)
      then show ?thesis using that(3) [OF Some _ b] by simp
    qed
  next
    case 7
    show ?thesis
    proof (cases "active f")
      case None
      with 7 pc have "\<not> r \<and> f' = f" by (auto simp: parseControl_def cmd_def)
      then show ?thesis using that(9) 7 by (simp add: cmd_def)
    next
      case (Some s)
      from backspace_touches [OF Some] obtain g where "backspace f = Inr g" and "touches s f g"
        by blast
      with 7 pc Some have "\<not> r \<and> touches s f f'" by (auto simp: parseControl_def cmd_def)
      then show ?thesis using that(4) [OF Some] by simp
    qed
  next
    case 8
    show ?thesis
    proof (cases "active f")
      case None
      with 8 pc have "\<not> r \<and> f' = f" by (auto simp: parseControl_def cmd_def)
      then show ?thesis using that(9) 8 by (simp add: cmd_def)
    next
      case (Some s)
      from deleteLoop_touches [OF Some] obtain g where "deleteLoop f (col f) = Inr g" and "touches s f g"
        by blast
      with 8 pc Some have "\<not> r \<and> touches s f f'" by (auto simp: parseControl_def cmd_def)
      then show ?thesis using that(4) [OF Some] by simp
    qed
  next
    case 9
    with pc have "\<not> r \<and> f' = f\<lparr>back := (back f)\<lparr>state := (state (back f))\<lparr>Rollup := 0\<rparr>\<rparr>, active := Some Back\<rparr>"
      by (auto simp: parseControl_def cmd_def updActiveState_def)
    then show ?thesis using that(5) 9 by (simp add: cmd_def)
  next
    case 10
    with pc have "\<not> r \<and> f' = f\<lparr>back := clear (back f)\<rparr>"
      by (auto simp: parseControl_def cmd_def)
    then show ?thesis using that(6) 10 by (simp add: cmd_def)
  next
    case 11
    with pc have "r \<and> f' = f\<lparr>front := back f, back := clearState (front f), col := 0, row := 0, active := Some Back\<rparr>"
      by (auto simp: parseControl_def cmd_def Let_def)
    then show ?thesis using that(7) 11 by (simp add: cmd_def)
  next
    case 12
    show ?thesis
    proof (cases "active f")
      case None
      with 12 pc have "\<not> r \<and> f' = f" by (auto simp: parseControl_def cmd_def tabOffset_def)
      then show ?thesis using that(9) 12 by (simp add: cmd_def)
    next
      case (Some s)
      then have "active (f\<lparr>col := col f + 1\<rparr>) = Some s" by simp
      from updActiveState_Some [OF this] 12 pc Some
      have "\<not> r \<and> f' = setBuf (f\<lparr>col := col f + 1\<rparr>) s ((buf f s)\<lparr>state := (state (buf f s))\<lparr>Col := Col (state (buf f s)) + 1\<rparr>\<rparr>)"
        by (auto simp: parseControl_def cmd_def tabOffset_def)
      then show ?thesis using that(8) [OF Some, of 1] by simp
    qed
  next
    case 13
    show ?thesis
    proof (cases "active f")
      case None
      with 13 pc have "\<not> r \<and> f' = f" by (auto simp: parseControl_def cmd_def tabOffset_def)
      then show ?thesis using that(9) 13 by (simp add: cmd_def)
    next
      case (Some s)
      then have "active (f\<lparr>col := col f + 2\<rparr>) = Some s" by simp
      from updActiveState_Some [OF this] 13 pc Some
      have "\<not> r \<and> f' = setBuf (f\<lparr>col := col f + 2\<rparr>) s ((buf f s)\<lparr>state := (state (buf f s))\<lparr>Col := Col (state (buf f s)) + 2\<rparr>\<rparr>)"
        by (auto simp: parseControl_def cmd_def tabOffset_def)
      then show ?thesis using that(8) [OF Some, of 2] by simp
    qed
  next
    case 14
    show ?thesis
    proof (cases "active f")
      case None
      with 14 pc have "\<not> r \<and> f' = f" by (auto simp: parseControl_def cmd_def tabOffset_def)
      then show ?thesis using that(9) 14 by (simp add: cmd_def)
    next
      case (Some s)
      then have "active (f\<lparr>col := col f + 3\<rparr>) = Some s" by simp
      from updActiveState_Some [OF this] 14 pc Some
      have "\<not> r \<and> f' = setBuf (f\<lparr>col := col f + 3\<rparr>) s ((buf f s)\<lparr>state := (state (buf f s))\<lparr>Col := Col (state (buf f s)) + 3\<rparr>\<rparr>)"
        by (auto simp: parseControl_def cmd_def tabOffset_def)
      then show ?thesis using that(8) [OF Some, of 3] by simp
    qed
  next
    case 15
    with pc have "\<not> r \<and> f' = f" by (auto simp: parseControl_def cmd_def)
    then show ?thesis using that(9) 15 by (simp add: cmd_def)
  qed
qed


lemma touches_keeps: "touches s f f' \<Longrightarrow> keeps s f f'"
  unfolding touches_def keeps_def by (cases s) simp_all

lemma keeps_ccData_left: "keeps s (f\<lparr>ccData := u\<rparr>) f' \<Longrightarrow> keeps s f f'"
  unfolding keeps_def by (cases s) simp_all

lemma parseText_touches:
  assumes a: "active f = Some s"
  shows "\<exists>f'. parseText f u = Inr (f', None) \<and> touches s f f'"
proof (cases "isBasicNA u")
  case True
  from writeChar_touches [OF a] obtain f1 x1
    where w1: "writeChar f (drop_bit 8 u - 0x20) = Inr (f1, x1)" and t1: "touches s f f1"
    by blast
  from t1 a have a1: "active f1 = Some s" by (simp add: touches_def)
  from writeChar_touches [OF a1] obtain f2 x2
    where w2: "writeChar f1 ((u AND 0x00FF) - 0x20) = Inr (f2, x2)" and t2: "touches s f1 f2"
    by blast
  from touches_trans [OF t1 t2] have t12: "touches s f f2" .
  show ?thesis
  proof (cases "0x0020 \<le> (u AND 0x00FF) \<and> 0x0080 > (u AND 0x00FF)")
    case True
    with \<open>isBasicNA u\<close> w1 w2 have "parseText f u = Inr (f2, None)"
      by (simp add: parseText_def Let_def)
    with t12 show ?thesis by blast
  next
    case False
    with \<open>isBasicNA u\<close> w1 have "parseText f u = Inr (f1, None)"
      by (cases "0x0020 \<le> (u AND 0x00FF)") (simp_all add: parseText_def Let_def)
    with t1 show ?thesis by blast
  qed
next
  case nb: False
  define u1 where "u1 = u AND 0xF7FF"
  from backspace_touches [OF a] obtain g where bs: "backspace f = Inr g" and tg: "touches s f g"
    by blast
  from tg a have ag: "active g = Some s" by (simp add: touches_def)
  show ?thesis
  proof (cases "isSpecialNA u1")
    case True
    from writeChar_touches [OF a] obtain f1 x1
      where "writeChar f (u1 - 0x1130 + 0x60) = Inr (f1, x1)" and "touches s f f1"
      by blast
    with nb True show ?thesis by (auto simp: parseText_def Let_def u1_def)
  next
    case ns: False
    show ?thesis
    proof (cases "0x1220 \<le> u1 \<and> 0x1240 > u1")
      case True
      from writeChar_touches [OF ag] obtain f2 x2
        where "writeChar g (u1 - 0x1220 + 0x70) = Inr (f2, x2)" and "touches s g f2"
        by blast
      with nb ns True bs tg have "parseText f u = Inr (f2, None) \<and> touches s f f2"
        by (auto simp: parseText_def Let_def u1_def intro: touches_trans)
      then show ?thesis by blast
    next
      case n1: False
      show ?thesis
      proof (cases "0x1320 \<le> u1 \<and> 0x1340 > u1")
        case True
        from writeChar_touches [OF ag] obtain f2 x2
          where "writeChar g (u1 - 0x1320 + 0x90) = Inr (f2, x2)" and "touches s g f2"
          by blast
        with nb ns n1 True bs tg have "parseText f u = Inr (f2, None) \<and> touches s f f2"
          by (cases "0x1220 \<le> u1") (auto simp: parseText_def Let_def u1_def intro: touches_trans)
        then show ?thesis by blast
      next
        case False
        with nb ns n1 have "parseText f u = Inr (f, None)"
          by (cases "0x1220 \<le> u1"; cases "0x1320 \<le> u1") (simp_all add: parseText_def Let_def u1_def)
        then show ?thesis by simp
      qed
    qed
  qed
qed

lemma parsePreamble_keeps:
  assumes a: "active f = Some s"
  shows "\<exists>f'. parsePreamble f u = Inr (f', None) \<and> ccData f' = ccData f \<and> keeps s f f'"
proof -
  define idx where "idx = drop_bit 7 (0x0700 AND u) OR drop_bit 5 (0x0020 AND u)"
  have i: "unat idx < length rowMap"
    using preamble_row_index [of u] by (simp add: idx_def rowMap_def)
  then have m: "rowMap ! unat idx \<in> set rowMap" by (rule nth_mem)
  define f4 where "f4 = (let f1 = f\<lparr>row := rowMap ! unat idx\<rparr>;
             f2 = f1\<lparr>underline := (0x0001 AND u = 1)\<rparr>;
             f3 = f2\<lparr>col := 0, style := 0\<rparr>
          in (if 0x0010 AND u = 0
                   then f3\<lparr>style := ucast (drop_bit 1 (0x000E AND u))\<rparr>
                   else f3\<lparr>col := ucast (4 * drop_bit 1 (0x000E AND u))\<rparr>))"
  have f4: "active f4 = Some s" "ccData f4 = ccData f" "row f4 = rowMap ! unat idx"
    "front f4 = front f" "back f4 = back f"
    using a by (simp_all add: f4_def Let_def)
  define f5 where "f5 = setBuf f4 s ((buf f4 s)\<lparr>state := (state (buf f4 s))\<lparr>Row := row f4\<rparr>\<rparr>)"
  have u5: "updActiveState f4 (\<lambda>st. st\<lparr>Row := row f4\<rparr>) = Inr f5"
    using updActiveState_Some [OF f4(1)] by (simp add: f5_def)
  have a5: "active f5 = Some s" using f4(1) by (simp add: f5_def)
  define f6 where "f6 = setBuf f5 s ((buf f5 s)\<lparr>state := (state (buf f5 s))\<lparr>Col := col f5\<rparr>\<rparr>)"
  have u6: "updActiveState f5 (\<lambda>st. st\<lparr>Col := col f5\<rparr>) = Inr f6"
    using updActiveState_Some [OF a5] by (simp add: f6_def)
  have "parsePreamble f u = Inr (f6, None)"
    using i u5 u6 unfolding parsePreamble_def idx_def [symmetric] Let_def
    by (simp add: f4_def Let_def)
  moreover have "ccData f6 = ccData f" using f4 by (simp add: f6_def f5_def)
  moreover have "keeps s f f6"
    using f4 m a unfolding keeps_def f6_def f5_def by (cases s) simp_all
  ultimately show ?thesis by blast
qed


lemma keeps_refl [simp]: "keeps s f f"
  unfolding keeps_def by (cases s) simp_all

lemma Decode_noncontrol_None:
  assumes "parityWord u = u" and "u AND 0x7F7F \<noteq> 0" and "\<not> isControl (u AND 0x7F7F)"
    and "\<not> (isSpecialNA (u AND 0x7F7F) \<and> u AND 0x7F7F = ccData f)" and "active f = None"
  shows "Decode f u = Inr (f\<lparr>ccData := u AND 0x7F7F\<rparr>, False, None)"
proof -
  define cc where "cc = u AND 0x7F7F"
  show ?thesis
    using assms unfolding Decode_def Let_def cc_def [symmetric] by auto
qed

lemma Decode_noncontrol:
  assumes p: "parityWord u = u" and nz: "u AND 0x7F7F \<noteq> 0"
    and nc: "\<not> isControl (u AND 0x7F7F)"
    and nd: "\<not> (isSpecialNA (u AND 0x7F7F) \<and> u AND 0x7F7F = ccData f)"
    and a: "active f = Some s"
  shows "\<exists>f' r. Decode f u = Inr (f', r, None) \<and> ccData f' = u AND 0x7F7F \<and> keeps s f f'"
proof -
  define cc where "cc = u AND 0x7F7F"
  define f1 where "f1 = f\<lparr>ccData := cc\<rparr>"
  have a1: "active f1 = Some s" and c1: "ccData f1 = cc" using a by (simp_all add: f1_def)
  have k1: "keeps s f f1" unfolding f1_def keeps_def by (cases s) simp_all
  have kk: "keeps s f1 g \<Longrightarrow> keeps s f g" for g
    unfolding f1_def by (rule keeps_ccData_left)
  have step: "Decode f u =
      (if isPreamble cc then bindR (parsePreamble f1 cc) (\<lambda>(f2, e). Inr (f2, False, e))
       else if isMidRowChange cc then (let (f2, e) = parseMidRowChange f1 cc in Inr (f2, False, e))
       else if isBasicNA cc \<or> isSpecialNA cc \<or> isWesternEu cc then
              bindR (parseText f1 cc) (\<lambda>(f2, e).
                case e of
                  Some err \<Rightarrow> Inr (f2, False, Some err)
                | None \<Rightarrow> bindR (activeRollup f2) (\<lambda>r. Inr (f2, word_sless 0 r, None)))
       else Inr (f1, False, None))"
    using p nz nc nd a1 unfolding Decode_def Let_def cc_def [symmetric] f1_def [symmetric]
    by auto
  show ?thesis
  proof (cases "isPreamble cc")
    case True
    from parsePreamble_keeps [OF a1] obtain f2
      where "parsePreamble f1 cc = Inr (f2, None)" and "ccData f2 = ccData f1" and "keeps s f1 f2"
      by blast
    with True step c1 kk show ?thesis unfolding cc_def [symmetric] by auto
  next
    case np: False
    show ?thesis
    proof (cases "isMidRowChange cc")
      case True
      define f2 where "f2 = fst (parseMidRowChange f1 cc)"
      have "parseMidRowChange f1 cc = (f2, None)"
        by (simp add: f2_def parseMidRowChange_def)
      moreover have "ccData f2 = cc" using c1 by (simp add: f2_def parseMidRowChange_def)
      moreover have "keeps s f1 f2"
        unfolding keeps_def f2_def parseMidRowChange_def by (cases s) simp_all
      ultimately show ?thesis
        using True np step kk unfolding cc_def [symmetric] by auto
    next
      case nm: False
      show ?thesis
      proof (cases "isBasicNA cc \<or> isSpecialNA cc \<or> isWesternEu cc")
        case True
        from parseText_touches [OF a1] obtain f2
          where pt: "parseText f1 cc = Inr (f2, None)" and t: "touches s f1 f2"
          by blast
        from t a1 have a2: "active f2 = Some s" by (simp add: touches_def)
        then have ar: "activeRollup f2 = Inr (Rollup (state (buf f2 s)))"
          by (simp add: activeRollup_def)
        from t c1 have c2: "ccData f2 = cc" by (simp add: touches_def)
        from t have "keeps s f f2" by (intro kk touches_keeps)
        with True np nm step pt ar c2 show ?thesis unfolding cc_def [symmetric] by auto
      next
        case False
        with np nm step c1 k1 show ?thesis unfolding cc_def [symmetric] by auto
      qed
    qed
  qed
qed

lemma parseControl_ccData:
  assumes "parseControl f u = Inr (f', r)"
  shows "ccData f' = ccData f"
  using assms by (cases rule: parseControl_cases) (auto simp: touches_def)

lemma Decode_ccData:
  assumes p: "parityWord u = u" and nz: "u AND 0x7F7F \<noteq> 0"
    and d: "Decode f u = Inr (f1, r1, e1)"
  shows "ccData f1 = u AND 0x7F7F"
proof (cases "(isSpecialNA (u AND 0x7F7F) \<or> isControl (u AND 0x7F7F)) \<and> u AND 0x7F7F = ccData f")
  case True
  then have x: "isSpecialNA (u AND 0x7F7F) \<or> isControl (u AND 0x7F7F)"
    and y: "u AND 0x7F7F = ccData f" by blast+
  have "Decode f u = Inr (f, False, None)" by (rule Decode_duplicate [OF x y])
  with d y show ?thesis by simp
next
  case nd: False
  show ?thesis
  proof (cases "isControl (u AND 0x7F7F)")
    case True
    with nd have ne: "u AND 0x7F7F \<noteq> ccData f" by simp
    from d Decode_control [OF p True ne]
    obtain f2 r where "parseControl (f\<lparr>ccData := u AND 0x7F7F\<rparr>) (u AND 0x7F7F) = Inr (f2, r)"
      and "f1 = f2"
      by (cases "parseControl (f\<lparr>ccData := u AND 0x7F7F\<rparr>) (u AND 0x7F7F)") auto
    then show ?thesis using parseControl_ccData by fastforce
  next
    case nc: False
    with nd have nd': "\<not> (isSpecialNA (u AND 0x7F7F) \<and> u AND 0x7F7F = ccData f)" by simp
    show ?thesis
    proof (cases "active f")
      case None
      from Decode_noncontrol_None [OF p nz nc nd' None] d show ?thesis by simp
    next
      case (Some s)
      from Decode_noncontrol [OF p nz nc nd' Some] d show ?thesis by auto
    qed
  qed
qed

lemma parityWord_9420: "parityWord 0x9420 = 0x9420"
  by (simp add: parityWord_def parityTable_def parityEntry_def bx_def)







lemma parseControl_active:
  assumes "parseControl f u = Inr (f', r)"
  shows "active f' \<noteq> None \<longleftrightarrow>
           active f \<noteq> None \<or>
           ctlCmd u \<in> {eia608_control_resume_direct_captioning, eia608_control_roll_up_2,
                 eia608_control_roll_up_3, eia608_control_roll_up_4,
                 eia608_control_resume_caption_loading, eia608_control_end_of_caption}"
  using assms
proof (cases rule: parseControl_cases)
  case (select n)
  then show ?thesis by auto
next
  case erase_front
  then show ?thesis by simp
next
  case (cr s b)
  then show ?thesis by simp
next
  case (touch s)
  then show ?thesis by (simp add: touches_def)
next
  case rcl
  then show ?thesis by simp
next
  case erase_back
  then show ?thesis by simp
next
  case eoc
  then show ?thesis by simp
next
  case (tab s n)
  then show ?thesis by simp
next
  case noop
  then show ?thesis by simp
qed


lemma selectsActive_zero: "\<not> selectsActive 0"
  by (simp add: selectsActive_def isControl_def)

lemma Decode_active_step:
  assumes d: "Decode f u = Inr (f', r, e)"
    and i: "selectsActive (ccData f) \<longrightarrow> active f \<noteq> None"
  shows "(active f' \<noteq> None \<longleftrightarrow>
            active f \<noteq> None \<or> (parityWord u = u \<and> selectsActive (u AND 0x7F7F)))
         \<and> (selectsActive (ccData f') \<longrightarrow> active f' \<noteq> None)"
proof (cases "parityWord u \<noteq> u \<or> u AND 0x7F7F = 0")
  case True
  then have "Decode f u = Inr (f, False, None)"
    using Decode_parity_drop [of u f] Decode_padding [of u f] by blast
  with d have "f' = f" by simp
  with True i show ?thesis using selectsActive_zero by auto
next
  case False
  then have p: "parityWord u = u" and nz: "u AND 0x7F7F \<noteq> 0" by simp_all
  define cc where "cc = u AND 0x7F7F"
  from Decode_ccData [OF p nz d] have c': "ccData f' = cc" by (simp add: cc_def)
  show ?thesis
  proof (cases "(isSpecialNA cc \<or> isControl cc) \<and> cc = ccData f")
    case True
    then have "Decode f u = Inr (f, False, None)"
      unfolding cc_def by (intro Decode_duplicate) blast+
    with d have "f' = f" by simp
    with True i p show ?thesis unfolding cc_def [symmetric] by auto
  next
    case nd: False
    show ?thesis
    proof (cases "isControl cc")
      case True
      with nd have ne: "u AND 0x7F7F \<noteq> ccData f" by (simp add: cc_def)
      from True have ic: "isControl (u AND 0x7F7F)" by (simp add: cc_def)
      from d Decode_control [OF p ic ne]
      have "parseControl (f\<lparr>ccData := cc\<rparr>) cc = Inr (f', r)"
        unfolding cc_def [symmetric]
        by (cases "parseControl (f\<lparr>ccData := cc\<rparr>) cc") auto
      from parseControl_active [OF this] True p c' show ?thesis
        unfolding cc_def [symmetric] by (auto simp: selectsActive_def)
    next
      case nc: False
      then have ns: "\<not> selectsActive cc" by (simp add: selectsActive_def)
      from nc have nc': "\<not> isControl (u AND 0x7F7F)" by (simp add: cc_def)
      from nd nc have nd': "\<not> (isSpecialNA (u AND 0x7F7F) \<and> u AND 0x7F7F = ccData f)"
        by (simp add: cc_def)
      have "active f' = active f"
      proof (cases "active f")
        case None
        from Decode_noncontrol_None [OF p nz nc' nd' None] d None show ?thesis by simp
      next
        case (Some s)
        from Decode_noncontrol [OF p nz nc' nd' Some] d show ?thesis by (auto simp: keeps_def)
      qed
      with ns c' show ?thesis unfolding cc_def [symmetric] by simp
    qed
  qed
qed

lemma decodeAll_active:
  "decodeAll f us = Inr f' \<Longrightarrow> selectsActive (ccData f) \<longrightarrow> active f \<noteq> None \<Longrightarrow>
     (active f' \<noteq> None \<longleftrightarrow>
        active f \<noteq> None \<or> (\<exists>u\<in>set us. parityWord u = u \<and> selectsActive (u AND 0x7F7F)))
     \<and> (selectsActive (ccData f') \<longrightarrow> active f' \<noteq> None)"
proof (induction us arbitrary: f)
  case Nil
  then show ?case by simp
next
  case (Cons u us)
  from Cons.prems(1) obtain f1 r e where d: "Decode f u = Inr (f1, r, e)"
    and rest: "decodeAll f1 us = Inr f'"
    by (cases "Decode f u") auto
  from Decode_active_step [OF d Cons.prems(2)]
  have s1: "active f1 \<noteq> None \<longleftrightarrow>
            active f \<noteq> None \<or> (parityWord u = u \<and> selectsActive (u AND 0x7F7F))"
    and i1: "selectsActive (ccData f1) \<longrightarrow> active f1 \<noteq> None"
    by blast+
  from Cons.IH [OF rest i1] s1 show ?case by auto
qed


lemma String_zeroBuffer: "String zeroBuffer = []"
  by (simp add: String_def zeroBuffer_def emptyData_def emptyRow_def rowString_def emptyChar_def)

lemma Decode_newFrame_9420:
  "Decode newFrame 0x9420 = Inr (newFrame\<lparr>ccData := 0x1420, active := Some Back\<rparr>, False, None)"
  by (simp add: Decode_def parityWord_9420 isControl_def isSpecialNA_def parseControl_def ctlCmd_def
      updActiveState_def newFrame_def zeroBuffer_def zeroState_def)

lemma rowMap_le: "x \<in> set rowMap \<Longrightarrow> x \<le> 15"
  by (auto simp: rowMap_def)

lemma clear_state [simp]: "state (clear b) = state b"
  by (simp add: clear_def)

lemma parseControl_cursorInv:
  assumes "parseControl f u = Inr (f', r)" and i: "cursorInv f"
  shows "cursorInv f'"
  using assms(1)
proof (cases rule: parseControl_cases)
  case (select n)
  with i show ?thesis unfolding cursorInv_def by auto
next
  case erase_front
  with i show ?thesis unfolding cursorInv_def by simp
next
  case (cr s b)
  from carriageReturn_state [OF cr(3)] cr(4) i show ?thesis
    unfolding cursorInv_def by (cases s) simp_all
next
  case (touch s)
  with i show ?thesis unfolding cursorInv_def touches_def by (cases s) simp_all
next
  case rcl
  with i show ?thesis unfolding cursorInv_def by simp
next
  case erase_back
  with i show ?thesis unfolding cursorInv_def by simp
next
  case eoc
  with i show ?thesis unfolding cursorInv_def by (simp add: clearState_def Let_def)
next
  case (tab s n)
  with i show ?thesis unfolding cursorInv_def by (cases s) simp_all
next
  case noop
  with i show ?thesis by simp
qed

lemma keeps_cursorInv:
  assumes k: "keeps s f f'" and i: "cursorInv f"
  shows "cursorInv f'"
proof -
  from k have "row f' = row f \<or> row f' \<in> set rowMap" by (auto simp: keeps_def)
  with i have r: "row f' \<le> 15" using rowMap_le unfolding cursorInv_def by auto
  from k have "Row (state (buf f' s)) = Row (state (buf f s)) \<or> Row (state (buf f' s)) = row f'"
    by (auto simp: keeps_def)
  with r k i show ?thesis unfolding cursorInv_def keeps_def by (cases s) auto
qed

lemma Decode_cursorInv:
  assumes d: "Decode f u = Inr (f', r, e)" and i: "cursorInv f"
  shows "cursorInv f'"
proof (cases "parityWord u \<noteq> u \<or> u AND 0x7F7F = 0 \<or>
              ((isSpecialNA (u AND 0x7F7F) \<or> isControl (u AND 0x7F7F)) \<and> u AND 0x7F7F = ccData f)")
  case True
  then have "Decode f u = Inr (f, False, None)"
    using Decode_parity_drop [of u f] Decode_padding [of u f] Decode_duplicate [of u f] by blast
  with d i show ?thesis by simp
next
  case False
  then have p: "parityWord u = u" and nz: "u AND 0x7F7F \<noteq> 0" by simp_all
  have i1: "cursorInv (f\<lparr>ccData := u AND 0x7F7F\<rparr>)" using i by (simp add: cursorInv_def)
  show ?thesis
  proof (cases "isControl (u AND 0x7F7F)")
    case True
    with False have ne: "u AND 0x7F7F \<noteq> ccData f" by blast
    from d Decode_control [OF p True ne]
    have "parseControl (f\<lparr>ccData := u AND 0x7F7F\<rparr>) (u AND 0x7F7F) = Inr (f', r)"
      by (cases "parseControl (f\<lparr>ccData := u AND 0x7F7F\<rparr>) (u AND 0x7F7F)") auto
    from parseControl_cursorInv [OF this i1] show ?thesis .
  next
    case nc: False
    with False have nd: "\<not> (isSpecialNA (u AND 0x7F7F) \<and> u AND 0x7F7F = ccData f)" by blast
    show ?thesis
    proof (cases "active f")
      case None
      from Decode_noncontrol_None [OF p nz nc nd None] d i1 show ?thesis by simp
    next
      case (Some s)
      from Decode_noncontrol [OF p nz nc nd Some] d have "keeps s f f'" by auto
      from keeps_cursorInv [OF this i] show ?thesis .
    qed
  qed
qed

lemma decodeAll_cursorInv:
  "decodeAll f us = Inr f' \<Longrightarrow> cursorInv f \<Longrightarrow> cursorInv f'"
proof (induction us arbitrary: f)
  case Nil
  then show ?case by simp
next
  case (Cons u us)
  from Cons.prems(1) obtain f1 r e where d: "Decode f u = Inr (f1, r, e)"
    and rest: "decodeAll f1 us = Inr f'"
    by (cases "Decode f u") auto
  from Cons.IH [OF rest Decode_cursorInv [OF d Cons.prems(2)]] show ?case .
qed

lemma cursorInv_newFrame: "cursorInv newFrame"
  by (simp add: cursorInv_def newFrame_def zeroBuffer_def zeroState_def)

lemmas parity_eval = parityWord_def parityTable_def parityEntry_def bx_def

lemma setChar_out_of_range: "r \<ge> Rows \<or> c \<ge> Cols \<Longrightarrow> setChar b r c ch = (b, False)"
  by (simp add: setChar_def getChar_def)

lemma setChar_data:
  assumes "r < Rows" and "c < Cols"
  shows "data (fst (setChar b r c ch)) = (data b)[unat r := (data b ! unat r)[unat c := ch]]"
proof -
  from assms have g: "getChar b r c = Some (data b ! unat r ! unat c)"
    by (simp add: getChar_def not_le [symmetric])
  show ?thesis
  proof (cases "data b ! unat r ! unat c = ch")
    case True
    then have "(data b ! unat r)[unat c := ch] = data b ! unat r"
      using list_update_id [of "data b ! unat r" "unat c"] by simp
    then have "(data b)[unat r := (data b ! unat r)[unat c := ch]] = data b" by simp
    with True g show ?thesis by (simp add: setChar_def)
  next
    case False
    with g show ?thesis by (simp add: setChar_def)
  qed
qed

lemma writeChar_Some:
  assumes a: "active f = Some s"
  shows "writeChar f i =
     Inr ((setBuf f s (fst (setChar (buf f s) (row f) (col f) (glyphCell f i))))
             \<lparr>col := (if col f < Cols then col f + 1 else col f)\<rparr>,
          snd (setChar (buf f s) (row f) (col f) (glyphCell f i)))"
proof -
  have "setBuf f s b\<lparr>col := col f\<rparr> = setBuf f s b" for b by (cases s) simp_all
  then show ?thesis
    unfolding writeChar_def Let_def glyphCell_def [symmetric]
    by (simp add: setCharActive_Some [OF a])
qed

lemma crLoop_shift:
  "unat rw + unat n < 15 \<Longrightarrow> i \<le> n \<Longrightarrow>
     crLoop rw n i d =
       Inr (foldl (\<lambda>d k. d[unat rw + k := d ! (unat rw + k - 1)]) d (rev [1..<Suc (unat n - unat i)]))"
proof (induction rw n i d rule: crLoop.induct)
  case (1 rw n i d)
  note b = "1.prems"(1)
  show ?case
  proof (cases "i < n")
    case False
    with "1.prems" have "i = n" by simp
    then show ?thesis by (subst crLoop.simps) simp
  next
    case True
    define m where "m = unat n - unat i"
    from True have lt: "unat i < unat n" by (simp add: word_less_nat_alt)
    then have m: "0 < m" "unat i + m = unat n" by (simp_all add: m_def)
    have "unat rw + unat n < 2 ^ LENGTH(64)" by (rule less_trans [OF b]) simp
    then have sum: "unat (rw + n) = unat rw + unat n" by (rule unat_add_lem [THEN iffD1])
    have "i \<le> rw + n" using lt sum by (simp add: word_le_nat_alt)
    then have "unat (rw + n - i) = unat (rw + n) - unat i" by (rule unat_sub)
    with sum lt have idx: "unat (rw + n - i) = unat rw + m" by (simp add: m_def)
    have "1 \<le> rw + n - i" using idx m(1) by (simp add: word_le_nat_alt)
    then have "unat (rw + n - i - 1) = unat (rw + n - i) - unat (1 :: 64 word)" by (rule unat_sub)
    with idx have idx1: "unat (rw + n - i - 1) = unat rw + m - 1" by simp
    have r1: "rw + n - i < Rows" using idx b m by (simp add: word_less_nat_alt)
    have r2: "rw + n - i - 1 < Rows" using idx1 b m by (simp add: word_less_nat_alt)
    have "unat i + unat (1 :: 64 word) \<le> unat rw + unat n" using lt by simp
    then have "unat i + unat (1 :: 64 word) < 15" using b by (rule le_less_trans)
    then have "unat i + unat (1 :: 64 word) < 2 ^ LENGTH(64)" by (rule less_trans) simp
    then have "unat (i + 1) = unat i + unat (1 :: 64 word)" by (simp only: unat_add_lem)
    then have s: "unat (i + 1) = Suc (unat i)" by simp
    have le: "i + 1 \<le> n" using lt s by (simp add: word_le_nat_alt)
    have m': "unat n - unat (i + 1) = m - 1" using s by (simp add: m_def)
    let ?step = "\<lambda>d k. d[unat rw + k := d ! (unat rw + k - 1)]"
    have unfold: "crLoop rw n i d =
        crLoop rw n (i + 1) (d[unat (rw + n - i) := d ! unat (rw + n - i - 1)])"
      using True r1 r2 by (subst crLoop.simps) (simp add: Let_def)
    have d': "d[unat (rw + n - i) := d ! unat (rw + n - i - 1)] = ?step d m"
      by (simp only: idx idx1)
    from "1.IH" [OF True refl _ b le] r1 r2
    have "crLoop rw n (i + 1) (?step d m) = Inr (foldl ?step (?step d m) (rev [1..<Suc (m - 1)]))"
      unfolding d' m' by simp
    moreover have "rev [1..<Suc m] = m # rev [1..<Suc (m - 1)]"
      using m(1) by (cases m) simp_all
    then have "foldl ?step d (rev [1..<Suc m]) = foldl ?step (?step d m) (rev [1..<Suc (m - 1)])"
      by (simp only: foldl_Cons)
    ultimately show ?thesis
      unfolding unfold d' m_def [symmetric] by simp
  qed
qed


lemma foldl_shift_nth:
  "rw + m < length d \<Longrightarrow>
     foldl (\<lambda>d k. d[rw + k := d ! (rw + k - 1)]) d (rev [1..<Suc m]) ! j =
       (if rw < j \<and> j \<le> rw + m then d ! (j - 1) else d ! j)"
proof (induction m arbitrary: d)
  case 0
  then show ?case by auto
next
  case (Suc m)
  let ?d' = "d[rw + Suc m := d ! (rw + Suc m - 1)]"
  have "rev [1..<Suc (Suc m)] = Suc m # rev [1..<Suc m]" by simp
  then have "foldl (\<lambda>d k. d[rw + k := d ! (rw + k - 1)]) d (rev [1..<Suc (Suc m)]) =
             foldl (\<lambda>d k. d[rw + k := d ! (rw + k - 1)]) ?d' (rev [1..<Suc m])"
    by (simp only: foldl_Cons)
  moreover from Suc.prems have "rw + m < length ?d'" by simp
  ultimately have "foldl (\<lambda>d k. d[rw + k := d ! (rw + k - 1)]) d (rev [1..<Suc (Suc m)]) ! j =
       (if rw < j \<and> j \<le> rw + m then ?d' ! (j - 1) else ?d' ! j)"
    using Suc.IH [of ?d'] by simp
  with Suc.prems show ?case by (auto simp: nth_list_update)
qed

lemma spec_rollupShift_nth:
  assumes "0 < R" and "rw + R \<le> length d" and "j < length d"
  shows "spec_rollupShift R rw d ! j =
           (if j = rw then emptyRow else if rw < j \<and> j < rw + R then d ! (j - 1) else d ! j)"
proof -
  obtain m where R: "R = Suc m" using assms(1) by (cases R) auto
  let ?s = "foldl (\<lambda>d k. d[rw + k := d ! (rw + k - 1)]) d (rev [1..<Suc m])"
  have len: "length ?s = length d"
    by (induction m arbitrary: d) simp_all
  from assms R have "rw + m < length d" by simp
  from foldl_shift_nth [OF this, of j] len assms R show ?thesis
    unfolding spec_rollupShift_def R by (auto simp: nth_list_update)
qed

lemma minus_one_64: "(- 1 :: 64 word) = 0xFFFFFFFFFFFFFFFF"
  by simp




lemma selectFront_returns: "\<exists>f'. selectFront f n = Inr f'"
  by (simp add: selectFront_def updActiveState_def)

lemma tabOffset_returns: "\<exists>r. tabOffset f n = Inr r"
proof (cases "active f")
  case None
  then have "tabOffset f n = Inr (f, False)" by (simp add: tabOffset_def)
  then show ?thesis by blast
next
  case (Some s)
  then have "active (f\<lparr>col := col f + n\<rparr>) = Some s" by simp
  from updActiveState_Some [OF this] Some show ?thesis by (auto simp: tabOffset_def)
qed

lemma parseControl_abort:
  assumes pc: "parseControl f u = Inl e"
  shows "ctlCmd u = eia608_control_carriage_return \<and>
         (\<exists>s. active f = Some s \<and> carriageReturn (buf f s) (row f) = Inl e)"
proof -
  define cmd where "cmd = ctlCmd u"
  consider "cmd = 0x1429" | "cmd = 0x142C" | "cmd = 0x1425" | "cmd = 0x1426" | "cmd = 0x1427"
    | "cmd = 0x142D" | "cmd = 0x1421" | "cmd = 0x1424" | "cmd = 0x1420" | "cmd = 0x142E"
    | "cmd = 0x142F" | "cmd = 0x1721" | "cmd = 0x1722" | "cmd = 0x1723"
    | "cmd \<notin> {0x1429, 0x142C, 0x1425, 0x1426, 0x1427, 0x142D, 0x1421, 0x1424, 0x1420, 0x142E,
                0x142F, 0x1721, 0x1722, 0x1723}"
    by blast
  then show ?thesis
  proof cases
    case 1
    with pc selectFront_returns [of f 1] show ?thesis by (auto simp: parseControl_def cmd_def)
  next
    case 2
    with pc show ?thesis by (simp add: parseControl_def cmd_def)
  next
    case 3
    with pc selectFront_returns [of f 2] show ?thesis by (auto simp: parseControl_def cmd_def)
  next
    case 4
    with pc selectFront_returns [of f 3] show ?thesis by (auto simp: parseControl_def cmd_def)
  next
    case 5
    with pc selectFront_returns [of f 4] show ?thesis by (auto simp: parseControl_def cmd_def)
  next
    case 6
    show ?thesis
    proof (cases "active f")
      case None
      with 6 pc show ?thesis by (simp add: parseControl_def cmd_def)
    next
      case (Some s)
      show ?thesis
      proof (cases "carriageReturn (buf f s) (row f)")
        case (Inl e')
        with 6 pc Some show ?thesis by (simp add: parseControl_def cmd_def)
      next
        case (Inr b)
        have "active (setBuf (f\<lparr>col := 0\<rparr>) s b) = Some s" using Some by simp
        from updActiveState_Some [OF this] 6 pc Some Inr show ?thesis
          by (simp add: parseControl_def cmd_def)
      qed
    qed
  next
    case 7
    show ?thesis
    proof (cases "active f")
      case None
      with 7 pc show ?thesis by (simp add: parseControl_def cmd_def)
    next
      case (Some s)
      from backspace_touches [OF Some] 7 pc Some show ?thesis
        by (auto simp: parseControl_def cmd_def)
    qed
  next
    case 8
    show ?thesis
    proof (cases "active f")
      case None
      with 8 pc show ?thesis by (simp add: parseControl_def cmd_def)
    next
      case (Some s)
      from deleteLoop_touches [OF Some, of "col f"] 8 pc Some show ?thesis
        by (auto simp: parseControl_def cmd_def)
    qed
  next
    case 9
    with pc show ?thesis by (simp add: parseControl_def cmd_def updActiveState_def)
  next
    case 10
    with pc show ?thesis by (simp add: parseControl_def cmd_def)
  next
    case 11
    with pc show ?thesis by (simp add: parseControl_def cmd_def Let_def)
  next
    case 12
    with pc tabOffset_returns [of f 1] show ?thesis by (auto simp: parseControl_def cmd_def)
  next
    case 13
    with pc tabOffset_returns [of f 2] show ?thesis by (auto simp: parseControl_def cmd_def)
  next
    case 14
    with pc tabOffset_returns [of f 3] show ?thesis by (auto simp: parseControl_def cmd_def)
  next
    case 15
    with pc show ?thesis by (simp add: parseControl_def cmd_def)
  qed
qed


lemma crLoop_step:
  "i < n \<Longrightarrow>
     crLoop rw n i d =
       (if rw + n - i < Rows \<and> rw + n - i - 1 < Rows
        then crLoop rw n (i + 1) (d[unat (rw + n - i) := d ! unat (rw + n - i - 1)])
        else Inl IndexOutOfRange)"
  by (subst crLoop.simps) (simp add: Let_def)

lemma crLoop_underflow:
  "unat i < unat rw \<Longrightarrow> unat rw \<le> 15 \<Longrightarrow> crLoop rw (- 1) i d = Inl IndexOutOfRange"
proof (induction "unat rw - unat i" arbitrary: i d)
  case 0
  then show ?case by simp
next
  case (Suc k)
  define j where "j = i + 1"
  have "unat i + unat (1 :: 64 word) < 16" using Suc.prems by simp
  then have "unat i + unat (1 :: 64 word) < 2 ^ LENGTH(64)" by (rule less_trans) simp
  then have "unat (i + 1) = unat i + unat (1 :: 64 word)" by (simp only: unat_add_lem)
  then have uj: "unat j = Suc (unat i)" by (simp add: j_def)
  with Suc.prems have "j \<le> rw" by (simp add: word_le_nat_alt)
  then have "unat (rw - j) = unat rw - unat j" by (rule unat_sub)
  with uj have ui: "unat (rw - j) = unat rw - Suc (unat i)" by simp
  have idx: "rw + (- 1) - i = rw - j" by (simp add: j_def)
  have "unat i < unat (0xFFFFFFFFFFFFFFFF :: 64 word)" using Suc.prems by simp
  then have lt: "i < - 1" by (simp add: word_less_nat_alt minus_one_64)
  have step: "crLoop rw (- 1) i d =
       (if rw - j < Rows \<and> rw - j - 1 < Rows
        then crLoop rw (- 1) j (d[unat (rw - j) := d ! unat (rw - j - 1)])
        else Inl IndexOutOfRange)"
    using crLoop_step [OF lt, of rw d] by (simp only: idx j_def [symmetric])
  show ?case
  proof (cases "unat rw - Suc (unat i) = 0")
    case True
    with ui have "rw - j = 0" by (simp add: unat_eq_zero)
    then have "\<not> (rw - j - 1 < Rows)" by (simp add: word_less_nat_alt minus_one_64)
    then show ?thesis by (simp only: step simp_thms if_False)
  next
    case False
    with ui have pos: "0 < unat (rw - j)" by simp
    then have "1 \<le> rw - j" by (simp add: word_le_nat_alt)
    then have "unat (rw - j - 1) = unat (rw - j) - unat (1 :: 64 word)" by (rule unat_sub)
    with ui Suc.prems have r2: "rw - j - 1 < Rows" by (simp add: word_less_nat_alt)
    from ui Suc.prems have r1: "rw - j < Rows" by (simp add: word_less_nat_alt)
    from False uj have nxt: "unat j < unat rw" by simp
    from Suc.hyps(2) uj have "k = unat rw - unat j" by simp
    from Suc.hyps(1) [OF this nxt Suc.prems(2)]
    have "crLoop rw (- 1) j (d[unat (rw - j) := d ! unat (rw - j - 1)]) = Inl IndexOutOfRange" .
    with r1 r2 show ?thesis by (simp only: step simp_thms if_True)
  qed
qed

lemma carriageReturn_depth_zero:
  assumes "Rollup (state b) = 0" and "0 < rw" and "rw \<le> 15"
  shows "carriageReturn b rw = Inl IndexOutOfRange"
proof -
  from assms(2) have p: "0 < unat rw" by (simp add: word_less_nat_alt)
  from assms(3) have u: "unat rw \<le> 15" by (simp add: word_le_nat_alt)
  from assms(2,3) have g: "\<not> rw \<ge> Rows + 1" "\<not> rw \<le> 0"
    by (simp_all add: word_le_nat_alt word_less_nat_alt)
  from crLoop_underflow [of 0 rw "data b"] p u
  have "crLoop rw (- 1) 0 (data b) = Inl IndexOutOfRange" by simp
  with g assms(1) show ?thesis by (simp add: carriageReturn_def)
qed

lemma carriageReturn_returns:
  assumes r: "rw \<le> 15" and R: "Rollup (state b) \<in> {1, 2, 3, 4} \<or> rw = 0"
  shows "\<exists>b'. carriageReturn b rw = Inr b'"
proof (cases "rw + Rollup (state b) \<ge> Rows + 1 \<or> rw + Rollup (state b) \<le> 0")
  case True
  then show ?thesis by (simp add: carriageReturn_def)
next
  case False
  define q where "q = Rollup (state b)"
  from r have ur: "unat rw \<le> 15" by (simp add: word_le_nat_alt)
  have uq: "unat q \<le> 15"
  proof (cases "rw = 0")
    case True
    with False show ?thesis by (simp add: q_def word_le_nat_alt)
  next
    case nz: False
    with R have "q \<in> {1, 2, 3, 4}" by (simp add: q_def)
    then show ?thesis by auto
  qed
  from ur uq have "unat rw + unat q \<le> 30" by simp
  then have "unat rw + unat q < 2 ^ LENGTH(64)" by (rule le_less_trans) simp
  then have sum: "unat (rw + q) = unat rw + unat q" by (rule unat_add_lem [THEN iffD1])
  from False sum have le: "unat rw + unat q \<le> 15" and pos: "0 < unat rw + unat q"
    by (simp_all add: q_def word_le_nat_alt)
  have qn: "q \<noteq> 0"
  proof
    assume "q = 0"
    with R have "rw = 0" by (simp add: q_def)
    with \<open>q = 0\<close> pos show False by simp
  qed
  then have q1: "0 < unat q" by (simp add: unat_gt_0)
  then have "1 \<le> q" by (simp add: word_le_nat_alt)
  then have "unat (q - 1) = unat q - unat (1 :: 64 word)" by (rule unat_sub)
  with le q1 have bnd: "unat rw + unat (q - 1) < 15" by simp
  from crLoop_shift [OF bnd, of 0 "data b"] obtain d'
    where loop: "crLoop rw (q - 1) 0 (data b) = Inr d'" by auto
  from le q1 have "rw < Rows" by (simp add: word_less_nat_alt)
  with False loop show ?thesis
    by (simp add: carriageReturn_def q_def [symmetric] Let_def)
qed

lemma Decode_aborts_iff:
  assumes i: "cursorInv f"
  shows "(\<exists>e. Decode f u = Inl e) \<longleftrightarrow>
           parityWord u = u \<and> isControl (u AND 0x7F7F) \<and> u AND 0x7F7F \<noteq> ccData f \<and>
           ctlCmd (u AND 0x7F7F) = eia608_control_carriage_return \<and>
           (\<exists>s. active f = Some s \<and> Rollup (state (buf f s)) = 0 \<and> 0 < row f)"
proof
  assume "\<exists>e. Decode f u = Inl e"
  then obtain e where d: "Decode f u = Inl e" by blast
  have p: "parityWord u = u" using d Decode_parity_drop [of u f] by auto
  have nz: "u AND 0x7F7F \<noteq> 0" using d Decode_padding [of u f] by auto
  have nd: "\<not> ((isSpecialNA (u AND 0x7F7F) \<or> isControl (u AND 0x7F7F)) \<and> u AND 0x7F7F = ccData f)"
    using d Decode_duplicate [of u f] by auto
  have c: "isControl (u AND 0x7F7F)"
  proof (rule ccontr)
    assume nc: "\<not> isControl (u AND 0x7F7F)"
    with nd have nd': "\<not> (isSpecialNA (u AND 0x7F7F) \<and> u AND 0x7F7F = ccData f)" by simp
    show False
    proof (cases "active f")
      case None
      from Decode_noncontrol_None [OF p nz nc nd' None] d show False by simp
    next
      case (Some s)
      from Decode_noncontrol [OF p nz nc nd' Some] d show False by auto
    qed
  qed
  with nd have ne: "u AND 0x7F7F \<noteq> ccData f" by simp
  from d Decode_control [OF p c ne]
  have "parseControl (f\<lparr>ccData := u AND 0x7F7F\<rparr>) (u AND 0x7F7F) = Inl e"
    by (cases "parseControl (f\<lparr>ccData := u AND 0x7F7F\<rparr>) (u AND 0x7F7F)") auto
  from parseControl_abort [OF this] obtain s
    where cmd: "ctlCmd (u AND 0x7F7F) = eia608_control_carriage_return"
      and a: "active f = Some s" and cr: "carriageReturn (buf f s) (row f) = Inl e"
    by auto
  from i have r: "row f \<le> 15" and R: "Rollup (state (buf f s)) \<in> {0, 1, 2, 3, 4}"
    unfolding cursorInv_def by (cases s; simp)+
  from carriageReturn_returns [OF r, of "buf f s"] cr
  have "\<not> (Rollup (state (buf f s)) \<in> {1, 2, 3, 4} \<or> row f = 0)" by auto
  with R have "Rollup (state (buf f s)) = 0 \<and> 0 < row f" by (auto simp: word_greater_zero_iff)
  with p c ne cmd a show "parityWord u = u \<and> isControl (u AND 0x7F7F) \<and> u AND 0x7F7F \<noteq> ccData f \<and>
           ctlCmd (u AND 0x7F7F) = eia608_control_carriage_return \<and>
           (\<exists>s. active f = Some s \<and> Rollup (state (buf f s)) = 0 \<and> 0 < row f)"
    by blast
next
  assume h: "parityWord u = u \<and> isControl (u AND 0x7F7F) \<and> u AND 0x7F7F \<noteq> ccData f \<and>
           ctlCmd (u AND 0x7F7F) = eia608_control_carriage_return \<and>
           (\<exists>s. active f = Some s \<and> Rollup (state (buf f s)) = 0 \<and> 0 < row f)"
  then obtain s where a: "active f = Some s" and z: "Rollup (state (buf f s)) = 0" and r: "0 < row f"
    by blast
  from i have "row f \<le> 15" by (simp add: cursorInv_def)
  from carriageReturn_depth_zero [OF z r this]
  have "carriageReturn (buf f s) (row f) = Inl IndexOutOfRange" .
  with h a have "parseControl (f\<lparr>ccData := u AND 0x7F7F\<rparr>) (u AND 0x7F7F) = Inl IndexOutOfRange"
    by (simp add: parseControl_def)
  with h Decode_control [of u f] show "\<exists>e. Decode f u = Inl e" by simp
qed


subsection \<open>Two short runs from the fresh decoder\<close>

lemma cols_cmp: "\<not> (32 :: 64 word) \<le> 1" "\<not> (32 :: 64 word) \<le> 0" "\<not> (15 :: 64 word) \<le> 0"
  "\<not> (15 :: 64 word) \<le> 1" "(0 :: 64 word) < 32" "(1 :: 64 word) < 32"
  by (simp_all add: word_le_nat_alt word_less_nat_alt)

lemmas run_eval = Decode_def parity_eval isControl_def isSpecialNA_def isMidRowChange_def isBasicNA_def
      isPreamble_def parsePreamble_def rowMap_def updActiveState_def Let_def
      parseText_def writeChar_def setCharActive_def setChar_def getChar_def charMap_def
      activeRollup_def parseControl_def ctlCmd_def selectFront_def cols_cmp

lemmas state_eval = plainCell_def hiRow_def hiBuffer_def newFrame_def zeroBuffer_def zeroState_def
      emptyData_def emptyRow_def emptyChar_def


lemma run_roll_up: "decodeAll newFrame [0x9425, 0xC849] =
   Inr (newFrame\<lparr>ccData := 0x4849, col := 2, active := Some Front,
          front := hiBuffer\<lparr>state := zeroState\<lparr>Rollup := 2\<rparr>\<rparr>\<rparr>)"
  apply (simp add: run_eval state_eval)
  done







lemma parityWord_94AD: "parityWord 0x94AD = 0x94AD"
  by (simp add: parityWord_def parityTable_def parityEntry_def bx_def)


section \<open>Facts about the CEA-708 envelope parser\<close>

lemma slice3:
  assumes "0 \<le> i" and "i + 2 < int (length dat)"
  shows "slice_go dat i (i + 3) = Inr [dat ! nat i, dat ! (nat i + 1), dat ! (nat i + 2)]"
proof -
  from assms have l: "nat i + 2 < length dat" by linarith
  have "take 3 (drop (nat i) dat) = [dat ! nat i, dat ! (nat i + 1), dat ! (nat i + 2)]"
  proof (rule nth_equalityI)
    show "length (take 3 (drop (nat i) dat)) = length [dat ! nat i, dat ! (nat i + 1), dat ! (nat i + 2)]"
      using l by simp
  next
    fix k assume "k < length (take 3 (drop (nat i) dat))"
    then have "k < 3" by simp
    then consider "k = 0" | "k = 1" | "k = 2" by linarith
    then show "take 3 (drop (nat i) dat) ! k = [dat ! nat i, dat ! (nat i + 1), dat ! (nat i + 2)] ! k"
      using l by cases simp_all
  qed
  moreover have "nat (i + 3 - i) = 3" by simp
  ultimately show ?thesis using assms unfolding slice_go_def by simp
qed

lemma ccLoop_step:
  assumes "0 \<le> i" and "i + 2 < int (length dat)"
  shows "bindR (slice_go dat i (i + 3)) (\<lambda>d.
           bindR (index d 0) (\<lambda>d0.
           bindR (slice_go d 1 3) (\<lambda>d13.
           bindR (Uint16 d13) (\<lambda>w. k d0 w))))
         = k (dat ! nat i) (ucast (dat ! (nat i + 2)) OR push_bit 8 (ucast (dat ! (nat i + 1))))"
  by (simp only: slice3 [OF assms] bindR_Inr) (simp add: index_def slice_go_def Uint16_def)

lemma ccLoop_length:
  "0 \<le> i \<Longrightarrow> length acc \<le> unat cnt \<Longrightarrow>
     \<exists>ccs. ccLoop dat cnt i acc = Inr ccs \<and>
           length ccs = min (unat cnt) (length acc + nat ((int (length dat) - i) div 3))"
proof (induction dat cnt i acc rule: ccLoop.induct)
  case (1 dat cnt i acc)
  have ub: "unat cnt < 256" using unsigned_less [of cnt, where 'a = nat] by simp
  with "1.prems" have "length acc < 256" by simp
  then have ua: "unat (of_nat (length acc) :: 8 word) = length acc"
    by (simp add: unat_of_nat)
  show ?case
  proof (cases "i + 2 < int (length dat) \<and> (of_nat (length acc) :: 8 word) < cnt")
    case True
    then have lt: "length acc < unat cnt" using ua by (simp add: word_less_nat_alt)
    define cd where "cd = \<lparr>marker_bits = drop_bit 3 (dat ! nat i), cc_valid = (dat ! nat i AND 0x40 = 0x40),
        cc_type = dat ! nat i AND 0x3,
        cc_data = ucast (dat ! (nat i + 2)) OR push_bit 8 (ucast (dat ! (nat i + 1)))\<rparr>"
    have unfold: "ccLoop dat cnt i acc = ccLoop dat cnt (i + 3) (acc @ [cd])"
      using True "1.prems"(1)
      by (subst ccLoop.simps) (simp add: ccLoop_step cd_def)
    have "0 \<le> i + 3" using "1.prems"(1) by simp
    moreover have "length (acc @ [cd]) \<le> unat cnt" using lt by simp
    ultimately obtain ccs where r: "ccLoop dat cnt (i + 3) (acc @ [cd]) = Inr ccs"
      and l: "length ccs = min (unat cnt) (length (acc @ [cd]) + nat ((int (length dat) - (i + 3)) div 3))"
      using "1.IH" [OF True, where xa = "dat ! nat i"
          and xc = "ucast (dat ! (nat i + 2)) OR push_bit 8 (ucast (dat ! (nat i + 1)))"]
      unfolding cd_def [symmetric] by blast
    from True have "3 \<le> int (length dat) - i" by simp
    then have "nat ((int (length dat) - i) div 3) = Suc (nat ((int (length dat) - (i + 3)) div 3))"
      by (simp add: Suc_nat_eq_nat_zadd1 zdiv_zminus1_eq_if field_simps) 
    with l have "length ccs = min (unat cnt) (length acc + nat ((int (length dat) - i) div 3))"
      by simp
    with r unfold show ?thesis by simp
  next
    case False
    then have stop: "ccLoop dat cnt i acc = Inr acc"
      by (subst ccLoop.simps) (simp only: if_False)
    from False ua have "\<not> i + 2 < int (length dat) \<or> length acc \<ge> unat cnt"
      by (auto simp: word_less_nat_alt)
    then have "length acc = min (unat cnt) (length acc + nat ((int (length dat) - i) div 3))"
    proof
      assume "\<not> i + 2 < int (length dat)"
      then have "(int (length dat) - i) div 3 \<le> 0" by simp
      then show ?thesis using "1.prems"(2) by simp
    next
      assume "length acc \<ge> unat cnt"
      with "1.prems"(2) show ?thesis by simp
    qed
    with stop show ?thesis by simp
  qed
qed


lemma uint_eq_255: "uint (c :: 8 word) = 255 \<longleftrightarrow> c = 255"
proof
  assume "uint c = 255"
  then have "uint c = uint (255 :: 8 word)" by simp
  then show "c = 255" by (simp only: word_uint_eq_iff [symmetric])
qed simp

lemma parseCEA708_header:
  assumes "envelopeHeader h" and "2 \<le> length blk"
  shows "parseCEA708 (h @ blk) = parseCEA708UserData blk"
proof -
  obtain b1 t where t: "blk = b1 # t" using assms(2) by (cases blk) auto
  with assms(2) obtain b2 rest where "t = b2 # rest" by (cases t) auto
  with t have blk: "blk = b1 # b2 # rest" by simp
  from assms(1) show ?thesis
  proof (cases rule: envelopeHeader.cases)
    case (directv c)
    then show ?thesis unfolding blk
      by (simp add: parseCEA708_def index_def slice_go_def Uint16_def Uint32_def zero708_def Let_def
          uint_eq_255)
  next
    case (directv_ext e)
    then show ?thesis unfolding blk
      by (simp add: parseCEA708_def index_def slice_go_def Uint16_def Uint32_def zero708_def Let_def
          uint_eq_255)
  next
    case (atsc c u1 u2 u3 u4)
    then show ?thesis unfolding blk
      by (simp add: parseCEA708_def index_def slice_go_def Uint16_def Uint32_def zero708_def Let_def
          uint_eq_255)
  next
    case (atsc_ext e u1 u2 u3 u4)
    then show ?thesis unfolding blk
      by (simp add: parseCEA708_def index_def slice_go_def Uint16_def Uint32_def zero708_def Let_def
          uint_eq_255)
  qed
qed


lemma parseCEA708UserData_short:
  "length d \<le> 2 \<Longrightarrow> parseCEA708UserData d = Inr (Inl (ErrorString ''insufficient cea708 user data''))"
  by (simp add: parseCEA708UserData_def)

lemma int_div_3: "int (n div 3) = int n div 3"
  by (simp add: zdiv_int)

lemma entries_available:
  assumes l: "2 < length (d :: 8 word list)"
  shows "nat ((int (length d) - 2) div 3) = (length d - 2) div 3"
proof -
  have "int (length d) - 2 = int (length d - 2)" using l by simp
  then have "(int (length d) - 2) div 3 = int ((length d - 2) div 3)"
    by (simp only: int_div_3)
  then show ?thesis by (simp only: nat_int)
qed

lemma count_mismatch:
  assumes n: "length (ccs :: 'a list) = min (unat (cnt :: 8 word)) k"
  shows "int (length ccs) \<noteq> uint cnt \<longleftrightarrow> k < unat cnt"
proof -
  have "uint cnt = int (unat cnt)" by simp
  then have "int (length ccs) \<noteq> uint cnt \<longleftrightarrow> length ccs \<noteq> unat cnt" by (simp only: of_nat_eq_iff)
  with n show ?thesis by (simp add: min_def)
qed

lemma parseCEA708UserData_unfold:
  assumes l: "2 < length d" and r: "ccLoop d (d ! 0 AND 0x1F) 2 [] = Inr ccs"
  shows "parseCEA708UserData d =
             (if int (length ccs) \<noteq> uint (d ! 0 AND 0x1F)
              then Inr (Inl (ErrorString ''mismatched cc count''))
              else Inr (Inr \<lparr>process_em_data_flag = (d ! 0 AND 0x80 = 0x80),
                     process_cc_data_flag = (d ! 0 AND 0x40 = 0x40),
                     additional_data_flag = (d ! 0 AND 0x20 = 0x20),
                     cc_count = d ! 0 AND 0x1F,
                     em_data = d ! 1,
                     ud_cc_data = ccs\<rparr>))"
proof -
  from l have i0: "index d 0 = Inr (d ! 0)" and i1: "index d 1 = Inr (d ! 1)"
    by (auto simp add: index_def)
  from l have nl: "\<not> length d \<le> 2" by simp
  show ?thesis
    unfolding parseCEA708UserData_def
    by (simp only: nl if_False i0 i1 bindR_Inr Let_def cea708_user_data.simps r
        cea708_user_data.update_convs)
qed


lemma parseCEA708UserData_count:
  assumes l: "2 < length d"
  shows "(length d - 2) div 3 < unat (d ! 0 AND 0x1F) \<longrightarrow>
           parseCEA708UserData d = Inr (Inl (ErrorString ''mismatched cc count''))"
    and "unat (d ! 0 AND 0x1F) \<le> (length d - 2) div 3 \<longrightarrow>
           (\<exists>ud. parseCEA708UserData d = Inr (Inr ud) \<and>
                 length (ud_cc_data ud) = unat (d ! 0 AND 0x1F))"
proof -
  from ccLoop_length [of 2 "[]" "d ! 0 AND 0x1F" d] obtain ccs
    where r: "ccLoop d (d ! 0 AND 0x1F) 2 [] = Inr ccs"
      and n: "length ccs = min (unat (d ! 0 AND 0x1F)) (nat ((int (length d) - 2) div 3))"
    by auto
  from n have n': "length ccs = min (unat (d ! 0 AND 0x1F)) ((length d - 2) div 3)"
    by (simp only: entries_available [OF l])
  note u = parseCEA708UserData_unfold [OF l r]
  note m = count_mismatch [OF n']
  show "(length d - 2) div 3 < unat (d ! 0 AND 0x1F) \<longrightarrow>
           parseCEA708UserData d = Inr (Inl (ErrorString ''mismatched cc count''))"
    unfolding u m by simp
  show "unat (d ! 0 AND 0x1F) \<le> (length d - 2) div 3 \<longrightarrow>
           (\<exists>ud. parseCEA708UserData d = Inr (Inr ud) \<and>
                 length (ud_cc_data ud) = unat (d ! 0 AND 0x1F))"
    unfolding u m using n' by auto
qed

lemma parseCEA708UserData_no_panic: "\<exists>r. parseCEA708UserData d = Inr r"
proof (cases "2 < length d")
  case True
  from parseCEA708UserData_count [OF True] show ?thesis
    by (cases "(length d - 2) div 3 < unat (d ! 0 AND 0x1F)") auto
next
  case False
  then show ?thesis by (simp add: parseCEA708UserData_short)
qed


lemmas parse708_eval = parseCEA708_def index_def slice_go_def Uint16_def Uint32_def zero708_def Let_def
  uint_eq_255

lemma parseCEA708_header_short:
  assumes "envelopeHeader h" and "length blk < 2"
  shows "\<exists>e. parseCEA708 (h @ blk) = Inr (Inl e)"
proof -
  from assms(2) consider "blk = []" | b where "blk = [b]"
    by (cases blk; cases "tl blk") auto
  then show ?thesis
  proof cases
    case 1
    from assms(1) show ?thesis unfolding 1
      by (cases rule: envelopeHeader.cases) (simp_all add: parse708_eval)
  next
    case 2
    from assms(1) show ?thesis unfolding 2
      by (cases rule: envelopeHeader.cases) (simp_all add: parse708_eval)
  qed
qed

lemma parseCEA708_atsc_truncated:
  assumes "c \<noteq> 0xFF" and "length rest < 4"
  shows "\<exists>e. parseCEA708 ([c, 0, 49] @ rest) = Inr (Inl e)"
  using assms by (simp add: parse708_eval)

lemma parseCEA708_atsc_ext_truncated:
  assumes "length rest < 4"
  shows "\<exists>e. parseCEA708 ([0xFF, x, 0, 49] @ rest) = Inr (Inl e)"
  using assms by (simp add: parse708_eval)


lemma CEA708ToCCData_error: "parseCEA708 dat = Inr (Inl e) \<Longrightarrow> CEA708ToCCData dat = Inr (Inl e)"
  by (simp add: CEA708ToCCData_def)

lemma parseCEA708_block_short:
  assumes h: "envelopeHeader h" and l: "length blk \<le> 2"
  shows "\<exists>e. parseCEA708 (h @ blk) = Inr (Inl e)"
proof (cases "length blk < 2")
  case True
  with h show ?thesis by (rule parseCEA708_header_short)
next
  case False
  with l have "2 \<le> length blk" by simp
  with h l have "parseCEA708 (h @ blk) = Inr (Inl (ErrorString ''insufficient cea708 user data''))"
    by (simp add: parseCEA708_header parseCEA708UserData_short)
  then show ?thesis by blast
qed

lemma parseCEA708_header_cut:
  assumes h: "envelopeHeader h" and n: "n < length h"
  shows "\<exists>e. parseCEA708 (take n h) = Inr (Inl e)"
proof (cases "n < 4")
  case True
  then have "length (take n h) < 4" by simp
  then show ?thesis by (simp add: parseCEA708_def)
next
  case False
  from h show ?thesis
  proof (cases rule: envelopeHeader.cases)
    case (directv c)
    with n False show ?thesis by simp
  next
    case (directv_ext e)
    with n False have "n = 4" by simp
    with directv_ext show ?thesis by (simp add: parse708_eval)
  next
    case (atsc c u1 u2 u3 u4)
    with n False consider "n = 4" | "n = 5" | "n = 6" | "n = 7" by fastforce
    then show ?thesis using atsc by cases (simp_all add: parse708_eval)
  next
    case (atsc_ext e u1 u2 u3 u4)
    with n False consider "n = 4" | "n = 5" | "n = 6" | "n = 7" | "n = 8" by fastforce
    then show ?thesis using atsc_ext by cases (simp_all add: parse708_eval)
  qed
qed

lemma parseCEA708_truncated:
  assumes h: "envelopeHeader h"
    and full: "length blk = 2 + 3 * unat (blk ! 0 AND 0x1F)"
    and n: "n < length (h @ blk)"
  shows "\<exists>e. parseCEA708 (take n (h @ blk)) = Inr (Inl e)"
proof (cases "n < length h")
  case True
  then have "take n (h @ blk) = take n h" by simp
  with parseCEA708_header_cut [OF h True] show ?thesis by (simp only:)
next
  case False
  define m where "m = n - length h"
  from False n have m: "m < length blk" and t: "take n (h @ blk) = h @ take m blk"
    by (simp_all add: m_def)
  show ?thesis
  proof (cases "m \<le> 2")
    case True
    then have "length (take m blk) \<le> 2" by simp
    from parseCEA708_block_short [OF h this] t show ?thesis by simp
  next
    case False
    with m have l: "2 < length (take m blk)" and z: "take m blk ! 0 = blk ! 0" by simp_all
    from m full False have "(length (take m blk) - 2) div 3 < unat (take m blk ! 0 AND 0x1F)"
      unfolding z by (simp add: min_def)
    with parseCEA708UserData_count(1) [OF l]
    have "parseCEA708UserData (take m blk) = Inr (Inl (ErrorString ''mismatched cc count''))"
      by blast
    moreover from l have "parseCEA708 (h @ take m blk) = parseCEA708UserData (take m blk)"
      by (intro parseCEA708_header [OF h]) simp
    ultimately show ?thesis unfolding t by simp
  qed
qed

section \<open>Controls before any active buffer\<close>

text \<open>
  C10. With no active buffer yet (\<open>active f = None\<close>), a carriage return, backspace,
  delete-to-end-of-row or tab-offset-1/2/3 control with valid parity is a no-op:
  \<open>Decode\<close> returns \<open>(false, nil)\<close> and the only field of the decoder that may differ is
  the recorded last-seen unit \<open>ccData\<close>.
\<close>

theorem control_without_active_buffer_noop:
  assumes "active f = None"
    and "parityWord u = u"
    and "isControl (u AND 0x7F7F)"
    and "ctlCmd (u AND 0x7F7F) \<in> {eia608_control_carriage_return, eia608_control_backspace,
            eia608_control_delete_to_end_of_row, eia608_tab_offset_1, eia608_tab_offset_2,
            eia608_tab_offset_3}"
  shows "Decode f u = Inr (f\<lparr>ccData := u AND 0x7F7F\<rparr>, False, None)"
proof (cases "u AND 0x7F7F = ccData f")
  case True
  then have "f\<lparr>ccData := u AND 0x7F7F\<rparr> = f" by simp
  moreover have "Decode f u = Inr (f, False, None)"
    using assms(3) True by (simp add: Decode_duplicate)
  ultimately show ?thesis by simp
next
  case False
  have "active (f\<lparr>ccData := u AND 0x7F7F\<rparr>) = None" using assms(1) by simp
  then have "parseControl (f\<lparr>ccData := u AND 0x7F7F\<rparr>) (u AND 0x7F7F)
               = Inr (f\<lparr>ccData := u AND 0x7F7F\<rparr>, False)"
    using assms(4) by (rule parseControl_no_active)
  then show ?thesis
    using Decode_control [OF assms(2,3) False] by simp
qed

theorem control_without_active_buffer_noop_witness:
  "Decode newFrame 0x94AD = Inr (newFrame\<lparr>ccData := 0x142D\<rparr>, False, None)
   \<and> Decode newFrame 0x97A1 = Inr (newFrame\<lparr>ccData := 0x1721\<rparr>, False, None)"
proof -
  have a: "active newFrame = None" by (simp add: newFrame_def)
  have p1: "parityWord 0x94AD = 0x94AD" by (simp add: parityWord_def parityTable_def parityEntry_def bx_def)
  have p2: "parityWord 0x97A1 = 0x97A1" by (simp add: parityWord_def parityTable_def parityEntry_def bx_def)
  have c1: "isControl (0x94AD AND 0x7F7F)" by (simp add: isControl_def)
  have c2: "isControl (0x97A1 AND 0x7F7F)" by (simp add: isControl_def)
  show ?thesis
    using control_without_active_buffer_noop [OF a p1 c1] control_without_active_buffer_noop [OF a p2 c2]
    by (simp add: ctlCmd_def)
qed

section \<open>Duplicate suppression\<close>

text \<open>
  C4. For a unit that, after parity stripping, classifies as a control or as a special
  North-American character: whenever a first \<open>Decode\<close> of it returns, a second \<open>Decode\<close>
  of the same unit right after returns \<open>(false, nil)\<close> and leaves the whole decoder state as
  the first call left it.
\<close>

theorem duplicate_unit_suppressed:
  assumes c: "isControl (u AND 0x7F7F) \<or> isSpecialNA (u AND 0x7F7F)"
    and d: "Decode f u = Inr (f1, r1, e1)"
  shows "Decode f1 u = Inr (f1, False, None)"
proof (cases "parityWord u = u")
  case False
  then show ?thesis by (rule Decode_parity_drop)
next
  case True
  from c have nz: "u AND 0x7F7F \<noteq> 0"
    using isControl_nonzero isSpecialNA_nonzero by blast
  from Decode_ccData [OF True nz d] have "u AND 0x7F7F = ccData f1" by simp
  moreover from c have "isSpecialNA (u AND 0x7F7F) \<or> isControl (u AND 0x7F7F)" by blast
  ultimately show ?thesis by (intro Decode_duplicate)
qed

theorem duplicate_unit_suppressed_witness:
  "Decode newFrame 0x9420 = Inr (newFrame\<lparr>ccData := 0x1420, active := Some Back\<rparr>, False, None)
   \<and> Decode (newFrame\<lparr>ccData := 0x1420, active := Some Back\<rparr>) 0x9420
        = Inr (newFrame\<lparr>ccData := 0x1420, active := Some Back\<rparr>, False, None)"
proof -
  have c: "isControl (0x9420 AND 0x7F7F) \<or> isSpecialNA (0x9420 AND 0x7F7F)"
    by (simp add: isControl_def)
  have d: "Decode newFrame 0x9420 = Inr (newFrame\<lparr>ccData := 0x1420, active := Some Back\<rparr>, False, None)"
    by (simp add: Decode_def parityWord_9420 isControl_def isSpecialNA_def parseControl_def ctlCmd_def
        updActiveState_def newFrame_def zeroBuffer_def zeroState_def)
  from duplicate_unit_suppressed [OF c d] d show ?thesis by simp
qed

section \<open>Pop-on isolation and the end-of-caption swap\<close>





section \<open>The state snapshot\<close>

text \<open>
  C7. \<open>StateSnapshot\<close> returns Mode = Unknown, with every other field zero or empty, exactly
  when no active buffer is selected; otherwise Mode is PaintOn if the roll-up depth of the
  front buffer is positive and PopOn if not, and the reported Row is 15 minus the configured
  row of the front buffer. In a decoder run from the fresh state, no active buffer is
  selected exactly when no unit with valid parity was a control code that selects one
  (resume direct captioning, roll-up 2/3/4, resume caption loading, end of caption).
\<close>

theorem StateSnapshot_mode_and_row:
  "StateSnapshot f =
     (if active f = None
      then \<lparr>Mode = Mode608_Unknown, Rollup = 0, Row = 0, Col = 0, Content = []\<rparr>
      else \<lparr>Mode = (if word_sless 0 (Rollup (state (front f))) then Mode608_PaintOn else Mode608_PopOn),
            Rollup = Rollup (state (front f)), Row = 15 - Row (state (front f)),
            Col = Col (state (front f)), Content = String (front f)\<rparr>)
   \<and> (Mode (StateSnapshot f) = Mode608_Unknown \<longleftrightarrow> active f = None)
   \<and> (decodeAll newFrame us = Inr f \<longrightarrow>
        (Mode (StateSnapshot f) = Mode608_Unknown \<longleftrightarrow>
           \<not> (\<exists>u\<in>set us. parityWord u = u \<and> selectsActive (u AND 0x7F7F))))"
proof (intro conjI impI)
  show "StateSnapshot f =
     (if active f = None
      then \<lparr>Mode = Mode608_Unknown, Rollup = 0, Row = 0, Col = 0, Content = []\<rparr>
      else \<lparr>Mode = (if word_sless 0 (Rollup (state (front f))) then Mode608_PaintOn else Mode608_PopOn),
            Rollup = Rollup (state (front f)), Row = 15 - Row (state (front f)),
            Col = Col (state (front f)), Content = String (front f)\<rparr>)"
    by (simp add: StateSnapshot_def zeroState_def Let_def)
  show m: "Mode (StateSnapshot f) = Mode608_Unknown \<longleftrightarrow> active f = None"
    by (simp add: StateSnapshot_def zeroState_def Let_def)
  assume d: "decodeAll newFrame us = Inr f"
  have "selectsActive (ccData newFrame) \<longrightarrow> active newFrame \<noteq> None"
    using selectsActive_zero by (simp add: newFrame_def)
  from decodeAll_active [OF d this]
  have "active f = None \<longleftrightarrow> \<not> (\<exists>u\<in>set us. parityWord u = u \<and> selectsActive (u AND 0x7F7F))"
    by (auto simp add: newFrame_def)
  with m show "Mode (StateSnapshot f) = Mode608_Unknown \<longleftrightarrow>
           \<not> (\<exists>u\<in>set us. parityWord u = u \<and> selectsActive (u AND 0x7F7F))"
    by simp
qed

theorem StateSnapshot_mode_and_row_witness:
  "decodeAll newFrame [0x9420] = Inr (newFrame\<lparr>ccData := 0x1420, active := Some Back\<rparr>)
   \<and> StateSnapshot (newFrame\<lparr>ccData := 0x1420, active := Some Back\<rparr>)
       = \<lparr>Mode = Mode608_PopOn, Rollup = 0, Row = 15, Col = 0, Content = []\<rparr>
   \<and> (\<exists>u\<in>set [0x9420]. parityWord u = u \<and> selectsActive (u AND 0x7F7F))
   \<and> StateSnapshot newFrame = \<lparr>Mode = Mode608_Unknown, Rollup = 0, Row = 0, Col = 0, Content = []\<rparr>"
proof -
  have d: "decodeAll newFrame [0x9420] = Inr (newFrame\<lparr>ccData := 0x1420, active := Some Back\<rparr>)"
    by (simp add: Decode_newFrame_9420)
  have a: "active (newFrame\<lparr>ccData := 0x1420, active := Some Back\<rparr>) \<noteq> None" by simp
  have z: "front newFrame = zeroBuffer" "state zeroBuffer = zeroState" "Rollup zeroState = 0"
    "Row zeroState = 0" "Col zeroState = 0" "active newFrame = None"
    by (simp_all add: newFrame_def zeroBuffer_def zeroState_def)
  from StateSnapshot_mode_and_row [of "newFrame\<lparr>ccData := 0x1420, active := Some Back\<rparr>" "[0x9420]"]
    StateSnapshot_mode_and_row [of newFrame "[]"] d
  show ?thesis
    by (simp add: z String_zeroBuffer parityWord_9420 selectsActive_def isControl_def ctlCmd_def)
qed

section \<open>Bounds on the cursor and the roll-up depth\<close>

text \<open>
  C6, as amended. Every decoder state reached by \<open>Decode\<close> calls from a fresh decoder has
  its live cursor row in [0,15] (15 is the entry of \<open>rowMap\<close> for the preamble row code 1,
  off the 15-row grid, where writes are dropped), the roll-up depth of both buffers in
  {0,1,2,3,4}, and the configured row of both buffers in [0,15].
\<close>

theorem reachable_cursor_bounds:
  "decodeAll newFrame us = Inr f \<Longrightarrow>
     row f \<le> 15 \<and>
     Rollup (state (front f)) \<in> {0, 1, 2, 3, 4} \<and> Rollup (state (back f)) \<in> {0, 1, 2, 3, 4} \<and>
     Row (state (front f)) \<le> 15 \<and> Row (state (back f)) \<le> 15"
  using decodeAll_cursorInv [OF _ cursorInv_newFrame] unfolding cursorInv_def by blast

theorem reachable_cursor_bounds_witness:
  "decodeAll newFrame [0x9420] = Inr (newFrame\<lparr>ccData := 0x1420, active := Some Back\<rparr>)
   \<and> row (newFrame\<lparr>ccData := 0x1420, active := Some Back\<rparr>) \<le> 15
   \<and> Rollup (state (front (newFrame\<lparr>ccData := 0x1420, active := Some Back\<rparr>))) \<in> {0, 1, 2, 3, 4}"
proof -
  have d: "decodeAll newFrame [0x9420] = Inr (newFrame\<lparr>ccData := 0x1420, active := Some Back\<rparr>)"
    by (simp add: Decode_newFrame_9420)
  from reachable_cursor_bounds [OF d] d show ?thesis by simp
qed

text \<open>
  The bounds of the claim as stated fail: after resume-caption-loading, the preamble unit
  0x10E0 (row code 1) leaves the live cursor row at 15, outside [0,15); and a preamble with
  indent 28 followed by tab offsets 3 and 2 leaves the live cursor column at 33, outside
  [0,32).
\<close>

theorem reachable_cursor_bounds_counterexample:
  "map_sum id row (decodeAll newFrame [0x9420, 0x10E0]) = Inr 15
   \<and> map_sum id col (decodeAll newFrame [0x9420, 0x105E, 0x9723, 0x97A2]) = Inr 33"
  apply (simp only: decodeAll.simps Decode_newFrame_9420 bindR_Inr prod.case)
  apply (simp add: Decode_def parity_eval isControl_def isSpecialNA_def
      isPreamble_def parsePreamble_def rowMap_def updActiveState_def Let_def
      parseControl_def ctlCmd_def tabOffset_def)
  done

section \<open>Character writes and the cursor column\<close>

text \<open>
  C5, as amended. For a character write with an active buffer: while the cursor column is
  below 32 the write stores the cell at the cursor (when the row is on the grid) and the
  column advances by one, so the column stops at 32, one past the last column 31, with no
  wraparound; at column 32 or beyond a write changes nothing, neither a cell nor the
  cursor: the character is dropped and column 31 keeps what was written there.
\<close>

theorem writeChar_advances_then_drops:
  assumes a: "active f = Some s"
  shows "(col f < 32 \<and> row f < 15 \<longrightarrow>
           (\<exists>f' r. writeChar f i = Inr (f', r) \<and> col f' = col f + 1 \<and> row f' = row f \<and>
              data (buf f' s) =
                (data (buf f s))[unat (row f) := (data (buf f s) ! unat (row f))[unat (col f) := glyphCell f i]]))
       \<and> (col f < 32 \<and> row f \<ge> 15 \<longrightarrow> writeChar f i = Inr (f\<lparr>col := col f + 1\<rparr>, False))
       \<and> (col f \<ge> 32 \<longrightarrow> writeChar f i = Inr (f, False))"
proof (intro conjI impI)
  assume h: "col f < 32 \<and> row f < 15"
  then show "\<exists>f' r. writeChar f i = Inr (f', r) \<and> col f' = col f + 1 \<and> row f' = row f \<and>
              data (buf f' s) =
                (data (buf f s))[unat (row f) := (data (buf f s) ! unat (row f))[unat (col f) := glyphCell f i]]"
    using setChar_data [of "row f" "col f" "buf f s" "glyphCell f i"]
    by (simp add: writeChar_Some [OF a])
next
  assume h: "col f < 32 \<and> row f \<ge> 15"
  then have "setChar (buf f s) (row f) (col f) (glyphCell f i) = (buf f s, False)"
    by (intro setChar_out_of_range) simp
  moreover have "setBuf f s (buf f s) = f" by (cases s) simp_all
  ultimately show "writeChar f i = Inr (f\<lparr>col := col f + 1\<rparr>, False)"
    using h by (simp add: writeChar_Some [OF a])
next
  assume h: "col f \<ge> 32"
  then have "setChar (buf f s) (row f) (col f) (glyphCell f i) = (buf f s, False)"
    by (intro setChar_out_of_range) simp
  moreover have "setBuf f s (buf f s) = f" by (cases s) simp_all
  moreover from h have "\<not> col f < 32" by simp
  ultimately show "writeChar f i = Inr (f, False)"
    by (simp add: writeChar_Some [OF a])
qed

theorem writeChar_advances_then_drops_witness:
  "(\<exists>f' r. writeChar (newFrame\<lparr>active := Some Back\<rparr>) 0x28 = Inr (f', r) \<and> col f' = 1 \<and> row f' = 0 \<and>
       data (back f') = (data (back newFrame))[0 := (data (back newFrame) ! 0)[0 := glyphCell newFrame 0x28]])
   \<and> writeChar (newFrame\<lparr>active := Some Back, col := 32\<rparr>) 0x28
        = Inr (newFrame\<lparr>active := Some Back, col := 32\<rparr>, False)
   \<and> writeChar (newFrame\<lparr>active := Some Back, row := 15\<rparr>) 0x28
        = Inr (newFrame\<lparr>active := Some Back, row := 15, col := 1\<rparr>, False)"
proof -
  have c: "col newFrame = 0" "row newFrame = 0" by (simp_all add: newFrame_def)
  have g: "glyphCell (newFrame\<lparr>active := Some Back\<rparr>) 0x28 = glyphCell newFrame 0x28"
    by (simp add: glyphCell_def)
  from writeChar_advances_then_drops [of "newFrame\<lparr>active := Some Back\<rparr>" Back "0x28"]
    writeChar_advances_then_drops [of "newFrame\<lparr>active := Some Back, col := 32\<rparr>" Back "0x28"]
    writeChar_advances_then_drops [of "newFrame\<lparr>active := Some Back, row := 15\<rparr>" Back "0x28"]
  show ?thesis by (simp add: c g)
qed

text \<open>
  The claim as stated fails: from column 28 of row 4, the six characters H I H I J J leave
  the cursor column at 32, not 31, and column 31 holds the I (0x49) written there; both J
  (0x4A) are dropped.
\<close>

theorem writeChar_clamp_counterexample:
  "map_sum id col (decodeAll newFrame [0x9420, 0x105E, 0xC849, 0xC849, 0x4A4A]) = Inr 32
   \<and> map_sum id (backCell 4 31) (decodeAll newFrame [0x9420, 0x105E, 0xC849, 0xC849, 0x4A4A]) = Inr 0x49"
  apply (simp only: decodeAll.simps Decode_newFrame_9420 bindR_Inr prod.case)
  apply (simp add: Decode_def parity_eval isControl_def isSpecialNA_def isMidRowChange_def isBasicNA_def
      isPreamble_def parsePreamble_def rowMap_def updActiveState_def Let_def
      parseText_def writeChar_def setCharActive_def setChar_def getChar_def charMap_def
      activeRollup_def backCell_def newFrame_def zeroBuffer_def zeroState_def emptyData_def
      emptyRow_def emptyChar_def)
  done

section \<open>The roll-up shift of carriage return\<close>

text \<open>
  C3. For a buffer with roll-up depth \<open>R \<ge> 1\<close> and a cursor row \<open>row\<close> (\<open>row + R\<close> taken
  as a number, without wrap-around of the 64-bit \<^verbatim>\<open>uint\<close>): if \<open>row + R\<close> exceeds 15,
  \<open>carriageReturn\<close> performs no shift and no clear; otherwise it returns the buffer whose
  rows are those of the specification's shift (copy row+k \<leftarrow> row+k-1 for k = R-1 down
  to 1, then clear row \<open>row\<close>): row \<open>row\<close> is empty, rows row+1 .. row+R-1 hold the old
  rows row .. row+R-2, and every other row is unchanged. A decoded carriage return (valid
  parity, not a repeat of the last-seen unit) runs exactly this \<open>carriageReturn\<close> on the
  active buffer at the cursor row \<open>row f\<close>, sets the cursor column and the column of the
  active buffer's state to 0 and returns ready = false: the active buffer's rows after the
  \<open>Decode\<close> call are the shifted rows when \<open>row + R \<le> 15\<close> and the old rows otherwise.
\<close>

theorem carriageReturn_roll_up_shift:
  assumes R: "word_sless 0 (Rollup (state b))"
    and nw: "unat rw + unat (Rollup (state b)) < 2 ^ 64"
  shows "(15 < unat rw + unat (Rollup (state b)) \<longrightarrow> carriageReturn b rw = Inr b)
       \<and> (unat rw + unat (Rollup (state b)) \<le> 15 \<longrightarrow>
            carriageReturn b rw =
              Inr (b\<lparr>data := spec_rollupShift (unat (Rollup (state b))) (unat rw) (data b)\<rparr>))
       \<and> (unat rw + unat (Rollup (state b)) \<le> 15 \<and> length (data b) = 15 \<longrightarrow>
            (\<forall>j<15. spec_rollupShift (unat (Rollup (state b))) (unat rw) (data b) ! j =
               (if j = unat rw then emptyRow
                else if unat rw < j \<and> j < unat rw + unat (Rollup (state b)) then data b ! (j - 1)
                else data b ! j)))
       \<and> (active f = Some s \<and> buf f s = b \<and> row f = rw \<and> parityWord u = u \<and>
          isControl (u AND 0x7F7F) \<and> ctlCmd (u AND 0x7F7F) = eia608_control_carriage_return \<and>
          u AND 0x7F7F \<noteq> ccData f \<longrightarrow>
            Decode f u =
              bindR (carriageReturn b rw) (\<lambda>b'.
                Inr (setBuf (f\<lparr>ccData := u AND 0x7F7F, col := 0\<rparr>) s
                       (b'\<lparr>state := (state b')\<lparr>Col := 0\<rparr>\<rparr>), False, None))
            \<and> Decode f u =
                Inr (setBuf (f\<lparr>ccData := u AND 0x7F7F, col := 0\<rparr>) s
                       (b\<lparr>data := (if unat rw + unat (Rollup (state b)) \<le> 15
                                    then spec_rollupShift (unat (Rollup (state b))) (unat rw) (data b)
                                    else data b),
                          state := (state b)\<lparr>Col := 0\<rparr>\<rparr>), False, None))"
proof -
  define r where "r = Rollup (state b)"
  from R have "r \<noteq> 0" unfolding r_def by (auto simp: word_sless_alt)
  then have r1: "0 < unat r" by (simp add: unat_gt_0)
  from nw have "unat rw + unat r < 2 ^ LENGTH(64)" by (simp add: r_def)
  then have sum: "unat (rw + r) = unat rw + unat r" by (rule unat_add_lem [THEN iffD1])
  have A: "carriageReturn b rw = Inr b" if "15 < unat rw + unat r"
  proof -
    from that sum have "rw + r \<ge> Rows + 1" by (simp add: word_le_nat_alt)
    then show ?thesis by (simp add: carriageReturn_def r_def)
  qed
  have B: "carriageReturn b rw = Inr (b\<lparr>data := spec_rollupShift (unat r) (unat rw) (data b)\<rparr>)"
    if le: "unat rw + unat r \<le> 15"
  proof -
    from le sum have g1: "\<not> rw + r \<ge> Rows + 1" by (simp add: word_le_nat_alt)
    from r1 sum have g2: "\<not> rw + r \<le> 0" by (simp add: word_le_nat_alt)
    from r1 have "1 \<le> r" by (simp add: word_le_nat_alt)
    then have "unat (r - 1) = unat r - unat (1 :: 64 word)" by (rule unat_sub)
    then have n: "unat (r - 1) = unat r - 1" by simp
    with le r1 have bnd: "unat rw + unat (r - 1) < 15" by simp
    from crLoop_shift [OF bnd, of 0 "data b"] n r1
    have loop: "crLoop rw (r - 1) 0 (data b) =
        Inr (foldl (\<lambda>d k. d[unat rw + k := d ! (unat rw + k - 1)]) (data b) (rev [1..<unat r]))"
      by simp
    from le r1 have "rw < Rows" by (simp add: word_less_nat_alt)
    with g1 g2 loop show ?thesis
      by (simp add: carriageReturn_def r_def [symmetric] Let_def spec_rollupShift_def)
  qed
  have C: "spec_rollupShift (unat r) (unat rw) (data b) ! j =
               (if j = unat rw then emptyRow
                else if unat rw < j \<and> j < unat rw + unat r then data b ! (j - 1)
                else data b ! j)"
    if "unat rw + unat r \<le> 15" and "length (data b) = 15" and "j < 15" for j
    using that r1 by (intro spec_rollupShift_nth) simp_all
  have D: "Decode f u =
              bindR (carriageReturn b rw) (\<lambda>b'.
                Inr (setBuf (f\<lparr>ccData := u AND 0x7F7F, col := 0\<rparr>) s
                       (b'\<lparr>state := (state b')\<lparr>Col := 0\<rparr>\<rparr>), False, None))"
    if h: "active f = Some s \<and> buf f s = b \<and> row f = rw \<and> parityWord u = u \<and>
          isControl (u AND 0x7F7F) \<and> ctlCmd (u AND 0x7F7F) = eia608_control_carriage_return \<and>
          u AND 0x7F7F \<noteq> ccData f"
  proof -
    from h have "Decode f u = bindR (parseControl (f\<lparr>ccData := u AND 0x7F7F\<rparr>) (u AND 0x7F7F))
                        (\<lambda>(f2, r). Inr (f2, r, None))"
      by (intro Decode_control) simp_all
    moreover from h have "buf (f\<lparr>ccData := u AND 0x7F7F, col := 0\<rparr>) s = b"
      by (cases s) auto
    with h have "parseControl (f\<lparr>ccData := u AND 0x7F7F\<rparr>) (u AND 0x7F7F) =
        bindR (carriageReturn b rw) (\<lambda>b'.
          Inr (setBuf (f\<lparr>ccData := u AND 0x7F7F, col := 0\<rparr>) s
                 (b'\<lparr>state := (state b')\<lparr>Col := 0\<rparr>\<rparr>), False))"
      by (cases "carriageReturn b rw") (simp_all add: parseControl_def Let_def updActiveState_Some)
    ultimately show ?thesis by (cases "carriageReturn b rw") simp_all
  qed
  have E: "Decode f u =
                Inr (setBuf (f\<lparr>ccData := u AND 0x7F7F, col := 0\<rparr>) s
                       (b\<lparr>data := (if unat rw + unat r \<le> 15
                                    then spec_rollupShift (unat r) (unat rw) (data b)
                                    else data b),
                          state := (state b)\<lparr>Col := 0\<rparr>\<rparr>), False, None)"
    if h: "active f = Some s \<and> buf f s = b \<and> row f = rw \<and> parityWord u = u \<and>
          isControl (u AND 0x7F7F) \<and> ctlCmd (u AND 0x7F7F) = eia608_control_carriage_return \<and>
          u AND 0x7F7F \<noteq> ccData f"
  proof (cases "unat rw + unat r \<le> 15")
    case True
    with D [OF h] B [OF True] show ?thesis by simp
  next
    case False
    then have "15 < unat rw + unat r" by simp
    with D [OF h] A False show ?thesis by simp
  qed
  from A B C D E show ?thesis unfolding r_def by blast
qed

theorem carriageReturn_roll_up_shift_witness:
  "carriageReturn (hiBuffer\<lparr>state := zeroState\<lparr>Rollup := 2\<rparr>\<rparr>) 14
     = Inr (hiBuffer\<lparr>state := zeroState\<lparr>Rollup := 2\<rparr>\<rparr>)
   \<and> carriageReturn \<lparr>state = zeroState\<lparr>Rollup := 3\<rparr>,
                      data = emptyData[3 := hiRow, 4 := emptyRow[0 := plainCell 0x4F]]\<rparr> 3
     = Inr \<lparr>state = zeroState\<lparr>Rollup := 3\<rparr>,
            data = spec_rollupShift 3 3 (emptyData[3 := hiRow, 4 := emptyRow[0 := plainCell 0x4F]])\<rparr>
   \<and> spec_rollupShift 3 3 (emptyData[3 := hiRow, 4 := emptyRow[0 := plainCell 0x4F]]) ! 2 = emptyRow
   \<and> spec_rollupShift 3 3 (emptyData[3 := hiRow, 4 := emptyRow[0 := plainCell 0x4F]]) ! 3 = emptyRow
   \<and> spec_rollupShift 3 3 (emptyData[3 := hiRow, 4 := emptyRow[0 := plainCell 0x4F]]) ! 4 = hiRow
   \<and> spec_rollupShift 3 3 (emptyData[3 := hiRow, 4 := emptyRow[0 := plainCell 0x4F]]) ! 5
       = emptyRow[0 := plainCell 0x4F]
   \<and> spec_rollupShift 3 3 (emptyData[3 := hiRow, 4 := emptyRow[0 := plainCell 0x4F]]) ! 6 = emptyRow
   \<and> decodeAll newFrame [0x9425, 0xC849]
       = Inr (newFrame\<lparr>ccData := 0x4849, col := 2, active := Some Front,
                        front := hiBuffer\<lparr>state := zeroState\<lparr>Rollup := 2\<rparr>\<rparr>\<rparr>)
   \<and> Decode (newFrame\<lparr>ccData := 0x4849, col := 2, active := Some Front,
                        front := hiBuffer\<lparr>state := zeroState\<lparr>Rollup := 2\<rparr>\<rparr>\<rparr>) 0x94AD
       = Inr (newFrame\<lparr>ccData := 0x142D, active := Some Front,
                        front := \<lparr>state = zeroState\<lparr>Rollup := 2\<rparr>,
                                  data = spec_rollupShift 2 0 (emptyData[0 := hiRow])\<rparr>\<rparr>, False, None)
   \<and> spec_rollupShift 2 0 (emptyData[0 := hiRow]) ! 0 = emptyRow
   \<and> spec_rollupShift 2 0 (emptyData[0 := hiRow]) ! 1 = hiRow
   \<and> spec_rollupShift 2 0 (emptyData[0 := hiRow]) ! 2 = emptyRow
   \<and> cell_char (hiRow ! 0) = 0x48
   \<and> cell_char (emptyRow[0 := plainCell 0x4F] ! 0) = 0x4F
   \<and> cell_char (emptyRow ! 0) = 0"
proof -
  let ?b1 = "hiBuffer\<lparr>state := zeroState\<lparr>Rollup := 2\<rparr>\<rparr>"
  let ?b3 = "\<lparr>state = zeroState\<lparr>Rollup := 3\<rparr>,
              data = emptyData[3 := hiRow, 4 := emptyRow[0 := plainCell 0x4F]]\<rparr>"
  let ?f = "newFrame\<lparr>ccData := 0x4849, col := 2, active := Some Front, front := ?b1\<rparr>"
  have h1: "word_sless 0 (Rollup (state ?b1))" "word_sless 0 (Rollup (state ?b3))"
    by (simp_all add: word_sless_alt)
  have h2: "unat (14 :: 64 word) + unat (Rollup (state ?b1)) < 2 ^ 64"
    "unat (0 :: 64 word) + unat (Rollup (state ?b1)) < 2 ^ 64"
    "unat (3 :: 64 word) + unat (Rollup (state ?b3)) < 2 ^ 64"
    by simp_all
  have l: "length (data ?b1) = 15" "length (data ?b3) = 15"
    by (simp_all add: hiBuffer_def emptyData_def)
  have c: "isControl (0x94AD AND 0x7F7F)"
    "ctlCmd (0x94AD AND 0x7F7F) = eia608_control_carriage_return"
    by (simp_all add: isControl_def ctlCmd_def)
  have n: "emptyData ! 1 = emptyRow" "emptyData ! 2 = emptyRow" "emptyData ! 5 = emptyRow"
    "emptyData ! 6 = emptyRow"
    by (simp_all add: emptyData_def)
  from carriageReturn_roll_up_shift [OF h1(1) h2(1), of newFrame Front 0]
  have w1: "carriageReturn ?b1 14 = Inr ?b1" by simp
  from carriageReturn_roll_up_shift [OF h1(2) h2(3), of newFrame Front 0] l(2)
  have w2: "carriageReturn ?b3 3 = Inr (?b3\<lparr>data := spec_rollupShift 3 3 (data ?b3)\<rparr>)"
    and w3: "\<forall>j<15. spec_rollupShift 3 3 (data ?b3) ! j =
               (if j = 3 then emptyRow
                else if 3 < j \<and> j < 6 then data ?b3 ! (j - 1)
                else data ?b3 ! j)"
    by simp_all
  from carriageReturn_roll_up_shift [OF h1(1) h2(2), of ?f Front "0x94AD"] l(1) c
  have w4: "Decode ?f 0x94AD =
                Inr (setBuf (?f\<lparr>ccData := 0x94AD AND 0x7F7F, col := 0\<rparr>) Front
                       (?b1\<lparr>data := spec_rollupShift 2 0 (data ?b1),
                          state := (state ?b1)\<lparr>Col := 0\<rparr>\<rparr>), False, None)"
    and w5: "\<forall>j<15. spec_rollupShift 2 0 (data ?b1) ! j =
               (if j = 0 then emptyRow
                else if 0 < j \<and> j < 2 then data ?b1 ! (j - 1)
                else data ?b1 ! j)"
    by (simp_all add: parityWord_94AD newFrame_def)
  from w3 have r3: "spec_rollupShift 3 3 (data ?b3) ! 2 = emptyRow"
    "spec_rollupShift 3 3 (data ?b3) ! 3 = emptyRow"
    "spec_rollupShift 3 3 (data ?b3) ! 4 = hiRow"
    "spec_rollupShift 3 3 (data ?b3) ! 5 = emptyRow[0 := plainCell 0x4F]"
    "spec_rollupShift 3 3 (data ?b3) ! 6 = emptyRow"
    by (simp_all add: n emptyData_def)
  from w5 have r2: "spec_rollupShift 2 0 (data ?b1) ! 0 = emptyRow"
    "spec_rollupShift 2 0 (data ?b1) ! 1 = hiRow"
    "spec_rollupShift 2 0 (data ?b1) ! 2 = emptyRow"
    by (simp_all add: hiBuffer_def n emptyData_def)
  from w4 have w4': "Decode ?f 0x94AD
       = Inr (newFrame\<lparr>ccData := 0x142D, active := Some Front,
                        front := \<lparr>state = zeroState\<lparr>Rollup := 2\<rparr>,
                                  data = spec_rollupShift 2 0 (emptyData[0 := hiRow])\<rparr>\<rparr>, False, None)"
    by (simp add: newFrame_def hiBuffer_def zeroBuffer_def zeroState_def)
  have cells: "cell_char (hiRow ! 0) = 0x48"
    "cell_char (emptyRow[0 := plainCell 0x4F] ! 0) = 0x4F" "cell_char (emptyRow ! 0) = 0"
    by (simp_all add: hiRow_def emptyRow_def plainCell_def emptyChar_def)
  from w1 w2 r3 r2 w4' run_roll_up cells show ?thesis
    by (simp add: hiBuffer_def)
qed


section \<open>Carriage return at roll-up depth 0\<close>

text \<open>
  C1. The claim is that \<open>Decode\<close> never aborts. It does: after resume-caption-loading
  (0x9420: back buffer active, roll-up depth 0) and the preamble 0x1040 (cursor row 4), the
  carriage return 0x94AD passes the guard of \<open>carriageReturn\<close> (4 + 0 is neither \<ge> 16 nor
  \<le> 0), \<^verbatim>\<open>n := rollups - 1\<close> wraps to \<open>2^64 - 1\<close>, the loop copies rows 3, 2, 1 downwards
  and then reads \<^verbatim>\<open>b.data[idx-1]\<close> with \<open>idx = 0\<close>: index out of range. By
  \<open>Decode_aborts_iff\<close> this is the only way a \<open>Decode\<close> call aborts in a state within the
  bounds of \<open>cursorInv\<close>: a carriage return that is processed while the active buffer has
  roll-up depth 0 and the cursor row is positive.
\<close>

theorem carriage_return_depth_zero_panics:
  "decodeAll newFrame [0x9420, 0x1040, 0x94AD] = Inl IndexOutOfRange"
  apply (simp only: decodeAll.simps Decode_newFrame_9420 bindR_Inr prod.case)
  apply (simp add: Decode_def parity_eval isControl_def isSpecialNA_def
      isPreamble_def parsePreamble_def rowMap_def updActiveState_def Let_def
      parseControl_def ctlCmd_def carriageReturn_def crLoop.simps
      newFrame_def zeroBuffer_def zeroState_def minus_one_64)
  done

section \<open>Structural errors of the envelope extraction\<close>

text \<open>
  C9. \<open>CEA708ToCCData\<close> returns an error, which carries no units, (1) for every buffer
  shorter than 4 bytes, the minimum header size, a buffer of length 1 among them; (2) for
  every proper prefix of an envelope whose caption block holds exactly the declared number
  of entries, that is whenever bytes of a declared field are missing; (3) when the caption
  block after a header has at most its two header bytes; (4) when the block holds fewer
  complete 3-byte entries than the 5-bit count declares, so that the number of parsed
  entries differs from the count. When the block holds at least the declared number of
  entries, the extraction succeeds.
\<close>

theorem CEA708ToCCData_structural_errors:
  "(length dat < 4 \<longrightarrow>
      CEA708ToCCData dat = Inr (Inl (ErrorString ''insuffucient data to detect payload size'')))
   \<and> (envelopeHeader h \<and> length blk = 2 + 3 * unat (blk ! 0 AND 0x1F) \<and> n < length (h @ blk) \<longrightarrow>
        (\<exists>e. CEA708ToCCData (take n (h @ blk)) = Inr (Inl e)))
   \<and> (envelopeHeader h \<and> length blk \<le> 2 \<longrightarrow> (\<exists>e. CEA708ToCCData (h @ blk) = Inr (Inl e)))
   \<and> (envelopeHeader h \<and> 2 < length blk \<and> (length blk - 2) div 3 < unat (blk ! 0 AND 0x1F) \<longrightarrow>
        CEA708ToCCData (h @ blk) = Inr (Inl (ErrorString ''mismatched cc count'')))
   \<and> (envelopeHeader h \<and> 2 < length blk \<and> unat (blk ! 0 AND 0x1F) \<le> (length blk - 2) div 3 \<longrightarrow>
        (\<exists>us. CEA708ToCCData (h @ blk) = Inr (Inr us)))"
proof (intro conjI impI)
  assume "length dat < 4"
  then show "CEA708ToCCData dat = Inr (Inl (ErrorString ''insuffucient data to detect payload size''))"
    by (intro CEA708ToCCData_error) (simp add: parseCEA708_def)
next
  assume "envelopeHeader h \<and> length blk = 2 + 3 * unat (blk ! 0 AND 0x1F) \<and> n < length (h @ blk)"
  then show "\<exists>e. CEA708ToCCData (take n (h @ blk)) = Inr (Inl e)"
    using parseCEA708_truncated [of h blk n] CEA708ToCCData_error by blast
next
  assume "envelopeHeader h \<and> length blk \<le> 2"
  then show "\<exists>e. CEA708ToCCData (h @ blk) = Inr (Inl e)"
    using parseCEA708_block_short [of h blk] CEA708ToCCData_error by blast
next
  assume a: "envelopeHeader h \<and> 2 < length blk \<and> (length blk - 2) div 3 < unat (blk ! 0 AND 0x1F)"
  then have "parseCEA708 (h @ blk) = parseCEA708UserData blk"
    by (intro parseCEA708_header) simp_all
  with a parseCEA708UserData_count(1) [of blk]
  show "CEA708ToCCData (h @ blk) = Inr (Inl (ErrorString ''mismatched cc count''))"
    by (intro CEA708ToCCData_error) simp
next
  assume a: "envelopeHeader h \<and> 2 < length blk \<and> unat (blk ! 0 AND 0x1F) \<le> (length blk - 2) div 3"
  then have "parseCEA708 (h @ blk) = parseCEA708UserData blk"
    by (intro parseCEA708_header) simp_all
  with a parseCEA708UserData_count(2) [of blk]
  show "\<exists>us. CEA708ToCCData (h @ blk) = Inr (Inr us)"
    by (auto simp: CEA708ToCCData_def)
qed

theorem CEA708ToCCData_structural_errors_witness:
  "CEA708ToCCData [0xB5] = Inr (Inl (ErrorString ''insuffucient data to detect payload size''))
   \<and> (\<exists>e. CEA708ToCCData [0xB5, 0, 49, 0x47, 0x41, 0x39] = Inr (Inl e))
   \<and> (\<exists>e. CEA708ToCCData ([0xB5, 0, 49, 0x47, 0x41, 0x39, 0x34, 3] @ [0x41, 0xFF]) = Inr (Inl e))
   \<and> CEA708ToCCData ([0xB5, 0, 49, 0x47, 0x41, 0x39, 0x34, 3] @ [0x43, 0xFF, 0xFC, 0x94, 0x20])
        = Inr (Inl (ErrorString ''mismatched cc count''))
   \<and> (\<exists>us. CEA708ToCCData ([0xB5, 0, 49, 0x47, 0x41, 0x39, 0x34, 3] @ [0x41, 0xFF, 0xFC, 0x94, 0x20])
          = Inr (Inr us))"
proof -
  have h: "envelopeHeader [0xB5, 0, 49, 0x47, 0x41, 0x39, 0x34, 3]"
    by (rule envelopeHeader.atsc) simp
  from CEA708ToCCData_structural_errors [of "[0xB5]" "[0xB5, 0, 49, 0x47, 0x41, 0x39, 0x34, 3]"
      "[0x41, 0xFF, 0xFC, 0x94, 0x20]" 6]
    CEA708ToCCData_structural_errors [of "[0xB5]" "[0xB5, 0, 49, 0x47, 0x41, 0x39, 0x34, 3]"
      "[0x41, 0xFF]" 0]
    CEA708ToCCData_structural_errors [of "[0xB5]" "[0xB5, 0, 49, 0x47, 0x41, 0x39, 0x34, 3]"
      "[0x43, 0xFF, 0xFC, 0x94, 0x20]" 0] h
  show ?thesis by simp
qed

end
